theory Spec2Isabelle
  imports Complex_Main "HOL-Library.Word"
begin

section \<open>Python numbers\<close>

text \<open>
  The embedding follows \<^verbatim>\<open>src/litedram/phy/s7ddrphy.py\<close>. Python's unbounded integers
  are \<open>int\<close>. Every \<^verbatim>\<open>raise\<close>, failed \<^verbatim>\<open>assert\<close>, failed lookup, failed conversion and division
  by zero of the source is the \<open>Inl\<close> branch of a sum.
\<close>

datatype error =
  ValueError | AssertionError | ZeroDivisionError | KeyError | IndexError | OverflowError

text \<open>
  A Python \<^verbatim>\<open>float\<close> is an IEEE 754 binary64 number: a finite value \<open>m * 2 ^ e\<close> with an
  integer significand \<open>\<bar>m\<bar> < 2 ^ 53\<close> and an exponent \<open>- 1074 \<le> e \<le> 971\<close>, an infinity or
  a NaN. The two zeros are one value here: the program divides by no zero (Python raises
  first) and compares, multiplies and rounds zeros only, which does not tell them apart.
\<close>

datatype pyfloat = Finite real | PosInf | NegInf | NaN

text \<open>Rounding to the nearest integer, a tie to the even one.\<close>

definition round_even :: "real \<Rightarrow> int" where
  "round_even z =
     (let n = \<lfloor>z\<rfloor>
      in if z - of_int n < 1 / 2 then n
         else if 1 / 2 < z - of_int n then n + 1
         else if even n then n else n + 1)"

text \<open>
  The result of every float operation of the program is the exact result rounded to the
  nearest float, ties to even. \<open>float_exponent x\<close> is the exponent of the unit in the last
  place at \<open>x\<close>: the largest \<open>e\<close> from \<open>- 1074\<close> to \<open>971\<close> with \<open>2 ^ (e + 52) \<le> \<bar>x\<bar>\<close>, and
  \<open>- 1074\<close> in the subnormal range; the search goes up from \<open>- 1074\<close>. A magnitude that
  rounds to \<open>2 ^ 1024\<close> or more overflows to an infinity.
\<close>

primrec exponent_search :: "nat \<Rightarrow> int \<Rightarrow> real \<Rightarrow> int" where
  "exponent_search 0 e x = e"
| "exponent_search (Suc n) e x =
     (if 2 powi (e + 53) \<le> x then exponent_search n (e + 1) x else e)"

definition float_exponent :: "real \<Rightarrow> int" where
  "float_exponent x = exponent_search 2045 (- 1074) \<bar>x\<bar>"

definition magnitude :: "real \<Rightarrow> real" where
  "magnitude x =
     of_int (round_even (\<bar>x\<bar> / 2 powi float_exponent x)) * 2 powi float_exponent x"

definition round_double :: "real \<Rightarrow> pyfloat" where
  "round_double x =
     (if 2 ^ 1024 \<le> magnitude x then (if 0 < x then PosInf else NegInf)
      else Finite (sgn x * magnitude x))"

text \<open>Sequencing of fallible steps: the first error ends the computation, as a raise does.\<close>

definition and_then :: "error + 'a \<Rightarrow> ('a \<Rightarrow> error + 'b) \<Rightarrow> error + 'b" where
  "and_then r k = (case r of Inl e \<Rightarrow> Inl e | Inr v \<Rightarrow> k v)"

text \<open>
  The conversion of an integer operand of a float operation (\<^verbatim>\<open>PyLong_AsDouble\<close>): rounded
  to the nearest float, \<^verbatim>\<open>OverflowError\<close> when that is out of range.
\<close>

definition float_of_int :: "int \<Rightarrow> error + pyfloat" where
  "float_of_int k =
     (case round_double (of_int k) of Finite v \<Rightarrow> Inr (Finite v) | _ \<Rightarrow> Inl OverflowError)"

text \<open>
  \<^verbatim>\<open>*\<close>, \<^verbatim>\<open>/\<close> and \<^verbatim>\<open>>=\<close> on floats. A float operation that overflows gives an infinity
  without raising; a division by zero raises; every comparison with a NaN is false.
\<close>

fun float_mul :: "pyfloat \<Rightarrow> pyfloat \<Rightarrow> pyfloat" where
  "float_mul (Finite x) (Finite y) = round_double (x * y)"
| "float_mul NaN b = NaN"
| "float_mul a NaN = NaN"
| "float_mul (Finite x) PosInf = (if x = 0 then NaN else if 0 < x then PosInf else NegInf)"
| "float_mul (Finite x) NegInf = (if x = 0 then NaN else if 0 < x then NegInf else PosInf)"
| "float_mul PosInf (Finite y) = (if y = 0 then NaN else if 0 < y then PosInf else NegInf)"
| "float_mul NegInf (Finite y) = (if y = 0 then NaN else if 0 < y then NegInf else PosInf)"
| "float_mul PosInf PosInf = PosInf"
| "float_mul PosInf NegInf = NegInf"
| "float_mul NegInf PosInf = NegInf"
| "float_mul NegInf NegInf = PosInf"

fun float_div :: "pyfloat \<Rightarrow> pyfloat \<Rightarrow> error + pyfloat" where
  "float_div (Finite x) (Finite y) =
     (if y = 0 then Inl ZeroDivisionError else Inr (round_double (x / y)))"
| "float_div PosInf (Finite y) =
     (if y = 0 then Inl ZeroDivisionError else Inr (if 0 < y then PosInf else NegInf))"
| "float_div NegInf (Finite y) =
     (if y = 0 then Inl ZeroDivisionError else Inr (if 0 < y then NegInf else PosInf))"
| "float_div NaN (Finite y) = (if y = 0 then Inl ZeroDivisionError else Inr NaN)"
| "float_div (Finite x) PosInf = Inr (Finite 0)"
| "float_div (Finite x) NegInf = Inr (Finite 0)"
| "float_div a b = Inr NaN"

fun float_ge :: "pyfloat \<Rightarrow> pyfloat \<Rightarrow> bool" where
  "float_ge (Finite x) (Finite y) \<longleftrightarrow> y \<le> x"
| "float_ge NaN b \<longleftrightarrow> False"
| "float_ge a NaN \<longleftrightarrow> False"
| "float_ge PosInf b \<longleftrightarrow> True"
| "float_ge a NegInf \<longleftrightarrow> True"
| "float_ge a b \<longleftrightarrow> False"

text \<open>
  \<^verbatim>\<open>/\<close> on two integers: the exact quotient rounded to the nearest float,
  \<^verbatim>\<open>ZeroDivisionError\<close> on a zero divisor, \<^verbatim>\<open>OverflowError\<close> when the quotient is out of range.
\<close>

definition int_true_div :: "int \<Rightarrow> int \<Rightarrow> error + pyfloat" where
  "int_true_div a b =
     (if b = 0 then Inl ZeroDivisionError
      else case round_double (of_int a / of_int b) of
             Finite v \<Rightarrow> Inr (Finite v) | _ \<Rightarrow> Inl OverflowError)"

text \<open>
  \<^verbatim>\<open>math.floor\<close> and \<^verbatim>\<open>math.ceil\<close> give an integer; they raise \<^verbatim>\<open>OverflowError\<close> on an infinity
  and \<^verbatim>\<open>ValueError\<close> on a NaN.
\<close>

fun math_floor :: "pyfloat \<Rightarrow> error + int" where
  "math_floor (Finite x) = Inr \<lfloor>x\<rfloor>"
| "math_floor NaN = Inl ValueError"
| "math_floor a = Inl OverflowError"

fun math_ceil :: "pyfloat \<Rightarrow> error + int" where
  "math_ceil (Finite x) = Inr \<lceil>x\<rceil>"
| "math_ceil NaN = Inl ValueError"
| "math_ceil a = Inl OverflowError"

section \<open>Series7 DDR2/DDR3 PHY: timing resolver and latency planner\<close>

text \<open>
  The \<^verbatim>\<open>OrderedDict\<close> that \<^verbatim>\<open>get_cl_cw\<close> fills, as an association list in insertion order
  (an \<^verbatim>\<open>OrderedDict\<close> iterates in insertion order and the keys are distinct). An entry is
  \<open>(f, cl, cwl)\<close>; the keys are float literals whose values are integers below \<open>2 ^ 53\<close>, so
  they are these values exactly. The third DDR2 key is \<^verbatim>\<open>677e6\<close> in the source.
\<close>

definition f_to_cl_cwl :: "string \<Rightarrow> error + (real \<times> int \<times> int) list" where
  "f_to_cl_cwl memtype =
     (if memtype = ''DDR2'' then
        Inr [(400000000, 3, 2), (533000000, 4, 3), (677000000, 5, 4),
             (800000000, 6, 5), (1066000000, 7, 5)]
      else if memtype = ''DDR3'' then
        Inr [(800000000, 6, 5), (1066000000, 7, 6), (1333000000, 10, 7),
             (1600000000, 11, 8)]
      else Inl ValueError)"

text \<open>
  The \<^verbatim>\<open>for\<close> loop over the items: the first match returns, exhaustion raises. The test
  \<^verbatim>\<open>tck >= 2/f\<close> compares the float \<^verbatim>\<open>tck\<close> with the float quotient \<^verbatim>\<open>2/f\<close>.
\<close>

fun scan_cl_cwl :: "pyfloat \<Rightarrow> (real \<times> int \<times> int) list \<Rightarrow> error + int \<times> int" where
  "scan_cl_cwl tck [] = Inl ValueError"
| "scan_cl_cwl tck ((f, cl, cwl) # rest) =
     (case float_div (Finite 2) (Finite f) of
        Inl e \<Rightarrow> Inl e
      | Inr q \<Rightarrow> if float_ge tck q then Inr (cl, cwl) else scan_cl_cwl tck rest)"

definition get_cl_cw :: "string \<Rightarrow> pyfloat \<Rightarrow> error + int \<times> int" where
  "get_cl_cw memtype tck =
     (case f_to_cl_cwl memtype of
        Inl e \<Rightarrow> Inl e
      | Inr tbl \<Rightarrow> scan_cl_cwl tck tbl)"

text \<open>
  \<^verbatim>\<open>math.ceil(cas_latency/nphases)\<close>: the true division of two integers, which gives a float,
  then the ceiling of that float.
\<close>

definition get_sys_latency :: "int \<Rightarrow> int \<Rightarrow> error + int" where
  "get_sys_latency nphases cas_latency =
     and_then (int_true_div cas_latency nphases) math_ceil"

text \<open>
  Python's \<^verbatim>\<open>%\<close> on integers takes the sign of the divisor, as \<open>mod\<close> on \<open>int\<close> does, and
  raises on a zero divisor.
\<close>

definition get_sys_phases :: "int \<Rightarrow> int \<Rightarrow> int \<Rightarrow> error + int \<times> int" where
  "get_sys_phases nphases sys_latency cas_latency =
     (let dat_phase = sys_latency * nphases - cas_latency
      in if nphases = 0 then Inl ZeroDivisionError
         else Inr ((dat_phase - 1) mod nphases, dat_phase))"

section \<open>Construction of the PHY\<close>

text \<open>
  Indexing with an integer key. A Python list (\<^verbatim>\<open>self.dfi.phases[k]\<close>) raises \<^verbatim>\<open>IndexError\<close>
  unless the key lies between minus the length and the length; a migen signal
  (\<^verbatim>\<open>last_wrdata_en[k]\<close>, \<^verbatim>\<open>self._dly_sel.storage[k]\<close>) raises it only for a key at or beyond
  its width. In both a negative key counts from the end. (For a key below minus the width
  migen builds a slice that starts below bit 0; \<open>wrap_index\<close> reads bit 0 there. No
  configuration with a positive phase count produces such a key.)
\<close>

definition index_ok :: "nat \<Rightarrow> int \<Rightarrow> bool" where
  "index_ok n k \<longleftrightarrow> - int n \<le> k \<and> k < int n"

definition signal_index_ok :: "nat \<Rightarrow> int \<Rightarrow> bool" where
  "signal_index_ok n k \<longleftrightarrow> k < int n"

definition wrap_index :: "nat \<Rightarrow> int \<Rightarrow> nat" where
  "wrap_index n k = nat (if k < 0 then k + int n else k)"

definition sig_bit :: "bool list \<Rightarrow> int \<Rightarrow> bool" where
  "sig_bit h k = h ! wrap_index (length h) k"

text \<open>
  The pads object is supplied by the platform; the constructor reads the widths of its
  pin groups. \<open>len_cs_n\<close> is \<open>None\<close> when the pads have no \<^verbatim>\<open>cs_n\<close> attribute. The groups
  \<^verbatim>\<open>dm\<close>, \<^verbatim>\<open>dqs_p\<close> and \<^verbatim>\<open>dqs_n\<close> are taken to have one pin per byte lane and the clock and
  control groups to be present, as on every supported board.
\<close>

record pads =
  len_a :: nat
  len_ba :: nat
  len_cs_n :: "nat option"
  len_dq :: nat

text \<open>
  The dictionary \<^verbatim>\<open>iodelay_tap_average\<close>; a missing key raises \<^verbatim>\<open>KeyError\<close>. A key is found
  when it equals the float key. The values are the floats nearest to the decimal literals
  \<^verbatim>\<open>78e-12\<close>, \<^verbatim>\<open>52e-12\<close> and \<^verbatim>\<open>39e-12\<close>.
\<close>

definition iodelay_tap_average :: "real \<Rightarrow> error + pyfloat" where
  "iodelay_tap_average f =
     (if f = 200000000 then Inr (round_double (78 / 1000000000000))
      else if f = 300000000 then Inr (round_double (52 / 1000000000000))
      else if f = 400000000 then Inr (round_double (39 / 1000000000000))
      else Inl KeyError)"

text \<open>
  Modelled from the spec: the class \<^verbatim>\<open>PhySettings\<close> of \<^verbatim>\<open>litedram/common.py\<close> is missing. It is
  the immutable settings object of the spec's data model; its fields are the keyword
  arguments that the constructor passes.
\<close>

record PhySettings =
  memtype :: string
  dfi_databits :: int
  nranks :: int
  nphases :: int
  rdphase :: int
  wrphase :: int
  rdcmdphase :: int
  wrcmdphase :: int
  cl :: int
  cwl :: int
  read_latency :: int
  write_latency :: int

text \<open>
  Modelled from the spec: the class \<^verbatim>\<open>Interface\<close> of \<^verbatim>\<open>litedram/phy/dfi.py\<close> is missing. Of it
  the model keeps that \<^verbatim>\<open>dfi.phases\<close> is a Python list of phases, ordered and fixed at
  construction, as many as the last argument of
  \<^verbatim>\<open>Interface(addressbits, bankbits, nranks, 2*databits, 4)\<close>.
\<close>

definition dfi_nphases :: nat where
  "dfi_nphases = 4"

text \<open>
  Modelled from the spec: the module \<^verbatim>\<open>BitSlip\<close> of \<^verbatim>\<open>migen.genlib.misc\<close> is missing. Its
  register \<^verbatim>\<open>value\<close> holds the rotation amount, an integer modulo the window width, which is
  8 for \<^verbatim>\<open>BitSlip(8)\<close>: a 3-bit register, and an assignment to it keeps the low 3 bits.
\<close>

type_synonym bitslip_value = "3 word"

text \<open>
  Modelled from the spec: \<^verbatim>\<open>IDELAYE2\<close> is a vendor primitive that the source instantiates by
  name. Its tap is a small integer that the load input zeroes (\<^verbatim>\<open>IDELAY_VALUE=0\<close>) and the
  clock-enable input advances by one (\<^verbatim>\<open>INC=1\<close>); it holds otherwise. The tap is taken as a
  5-bit counter that wraps.
\<close>

type_synonym delay_tap = "5 word"

definition IDELAYE2 :: "bool \<Rightarrow> bool \<Rightarrow> delay_tap \<Rightarrow> delay_tap" where
  "IDELAYE2 LD CE tap = (if LD then 0 else if CE then tap + 1 else tap)"

text \<open>
  The instance: the settings and the elaboration-time constants that the generated logic
  depends on, then the registers of the system clock domain that the claims are about.
  \<^item> \<open>n_rddata_en\<close> is the chain of \<^verbatim>\<open>n_rddata_en\<close> registers, first register first;
  \<^item> \<open>rddata_valid\<close> holds \<^verbatim>\<open>phase.rddata_valid\<close> for each phase of \<^verbatim>\<open>dfi.phases\<close>;
  \<^item> \<open>last_wrdata_en\<close> holds the bits of that signal, bit 0 first;
  \<^item> \<open>dq_bitslip_value\<close> holds \<^verbatim>\<open>dq_bitslip.value\<close> for each data pin;
  \<^item> \<open>idelay_tap\<close> holds the tap of the \<^verbatim>\<open>IDELAYE2\<close> of each data pin.
  All registers reset to zero. The serialised data path (the \<^verbatim>\<open>OSERDESE2\<close> and \<^verbatim>\<open>ISERDESE2\<close>
  instances and the window of \<^verbatim>\<open>BitSlip\<close>) and the output delay lines are not part of the
  model.
\<close>

record S7DDRPHY =
  settings :: PhySettings
  with_odelay :: bool
  half_sys8x_taps :: int
  databits :: nat
  cwl_sys_latency :: int
  dqs_sys_latency :: int
  n_rddata_en :: "bool list"
  rddata_valid :: "bool list"
  last_wrdata_en :: "bool list"
  oe_dqs :: bool
  oe_dq :: bool
  dq_bitslip_value :: "bitslip_value list"
  idelay_tap :: "delay_tap list"

text \<open>
  The clock period \<^verbatim>\<open>tck = 2/(2*nphases*sys_clk_freq)\<close> of the constructor. The phase count is
  an integer and the frequency a finite float, given by its value: the integer \<^verbatim>\<open>2*nphases\<close>
  is converted, the product and the quotient are float operations.
\<close>

definition S7DDRPHY_tck :: "int \<Rightarrow> real \<Rightarrow> error + pyfloat" where
  "S7DDRPHY_tck nphases sys_clk_freq =
     and_then (float_of_int (2 * nphases)) (\<lambda>n2.
       float_div (Finite 2) (float_mul n2 (Finite sys_clk_freq)))"
  for nphases sys_clk_freq

text \<open>
  \<^verbatim>\<open>S7DDRPHY.__init__\<close>, in the order of the source: the assertion, the clock period, the tap
  lookup and \<^verbatim>\<open>half_sys8x_taps\<close>, the lane-select register \<^verbatim>\<open>CSRStorage(databits//8)\<close> (whose
  signal migen refuses with \<^verbatim>\<open>ValueError\<close> when the width is not positive), the timing
  resolver and latency planner, the settings, then the elaboration of the per-pin logic
  (which indexes the lane signals with \<^verbatim>\<open>i//8\<close> for every data pin \<open>i\<close>, and so raises unless
  the lanes cover the pins), of the read and write flow control (\<^verbatim>\<open>Signal(cwl_sys_latency+2)\<close>
  again needs a positive width) and of the strobe preamble and postamble. Only DDR2 and
  DDR3 pass the timing resolver, so the last branch of \<open>dqs_sys_latency\<close> is the source's
  \<^verbatim>\<open>elif memtype == "DDR3"\<close>. The frequencies are finite floats, given by their values;
  the pin groups \<^verbatim>\<open>a\<close>, \<^verbatim>\<open>ba\<close> and \<^verbatim>\<open>cs_n\<close> are taken to be signals, which have a positive
  width, so that the DFI interface is built.
\<close>

definition S7DDRPHY_init ::
  "pads \<Rightarrow> bool \<Rightarrow> string \<Rightarrow> int \<Rightarrow> real \<Rightarrow> real \<Rightarrow> error + S7DDRPHY" where
  "S7DDRPHY_init pads with_odelay memtype nphases sys_clk_freq iodelay_clk_freq =
     (if memtype = ''DDR3'' \<and> nphases = 2 then Inl AssertionError
      else
        and_then (S7DDRPHY_tck nphases sys_clk_freq) (\<lambda>tck.
        let nranks = (case len_cs_n pads of None \<Rightarrow> 1 | Some n \<Rightarrow> int n);
            databits = len_dq pads
        in
        and_then (iodelay_tap_average iodelay_clk_freq) (\<lambda>tap.
        and_then (float_div tck (float_mul (Finite 4) tap)) (\<lambda>taps.
        and_then (math_floor taps) (\<lambda>half_sys8x_taps.
        if databits div 8 = 0 then Inl ValueError
        else
        and_then (get_cl_cw memtype tck) (\<lambda>(cl, cwl).
        and_then (get_sys_latency nphases cl) (\<lambda>cl_sys_latency.
        and_then (get_sys_latency nphases cwl) (\<lambda>cwl_sys_latency.
        and_then (get_sys_phases nphases cl_sys_latency cl) (\<lambda>(rdcmdphase, rdphase).
        and_then (get_sys_phases nphases cwl_sys_latency cwl) (\<lambda>(wrcmdphase, wrphase).
        let settings = \<lparr>
              memtype = memtype,
              dfi_databits = 2 * int databits,
              nranks = nranks,
              nphases = nphases,
              rdphase = rdphase,
              wrphase = wrphase,
              rdcmdphase = rdcmdphase,
              wrcmdphase = wrcmdphase,
              cl = cl,
              cwl = cwl,
              read_latency = 2 + cl_sys_latency + 2 + 3 - 1,
              write_latency = cwl_sys_latency \<rparr>;
            len_last_wrdata_en = nat (cwl_sys_latency + 2);
            dqs_sys_latency =
              (if memtype = ''DDR2'' then cwl_sys_latency - 1
               else if with_odelay then cwl_sys_latency - 1 else cwl_sys_latency)
        in
        if list_ex (\<lambda>i. \<not> signal_index_ok (databits div 8) (int (i div 8))) [0 ..< databits]
          then Inl IndexError
        else if \<not> index_ok dfi_nphases rdphase then Inl IndexError
        else if cwl_sys_latency + 2 \<le> 0 then Inl ValueError
        else if \<not> index_ok dfi_nphases wrphase then Inl IndexError
        else if \<not> (signal_index_ok len_last_wrdata_en (cwl_sys_latency - 1) \<and>
                    signal_index_ok len_last_wrdata_en cwl_sys_latency \<and>
                    signal_index_ok len_last_wrdata_en (cwl_sys_latency + 1))
          then Inl IndexError
        else if \<not> (signal_index_ok len_last_wrdata_en (dqs_sys_latency - 1) \<and>
                    signal_index_ok len_last_wrdata_en dqs_sys_latency \<and>
                    signal_index_ok len_last_wrdata_en (dqs_sys_latency + 1))
          then Inl IndexError
        else Inr \<lparr>
          settings = settings,
          with_odelay = with_odelay,
          half_sys8x_taps = half_sys8x_taps,
          databits = databits,
          cwl_sys_latency = cwl_sys_latency,
          dqs_sys_latency = dqs_sys_latency,
          n_rddata_en = replicate (nat (read_latency settings - 1)) False,
          rddata_valid = replicate dfi_nphases False,
          last_wrdata_en = replicate len_last_wrdata_en False,
          oe_dqs = False,
          oe_dq = False,
          dq_bitslip_value = replicate databits 0,
          idelay_tap = replicate databits 0 \<rparr>))))))))))"
  for pads with_odelay memtype nphases sys_clk_freq iodelay_clk_freq

section \<open>One system clock cycle\<close>

text \<open>
  What the PHY samples in one cycle of the system clock: the enable flags of the DFI
  phases, the values held by the \<^verbatim>\<open>CSRStorage\<close> registers (\<^verbatim>\<open>_wlevel_en\<close>, \<^verbatim>\<open>_dly_sel\<close>, by
  bit) and the one-cycle write strobes \<^verbatim>\<open>.re\<close> of the \<^verbatim>\<open>CSR\<close> registers.
\<close>

record inputs =
  rddata_en :: "nat \<Rightarrow> bool"
  wrdata_en :: "nat \<Rightarrow> bool"
  wlevel_en_storage :: bool
  wlevel_strobe_re :: bool
  dly_sel_storage :: "nat \<Rightarrow> bool"
  rdly_dq_rst_re :: bool
  rdly_dq_inc_re :: bool
  rdly_dq_bitslip_rst_re :: bool
  rdly_dq_bitslip_re :: bool

text \<open>The combinatorial signals \<^verbatim>\<open>oe\<close>, \<^verbatim>\<open>dqs_preamble\<close>, \<^verbatim>\<open>dqs_postamble\<close>.\<close>

definition oe :: "S7DDRPHY \<Rightarrow> bool" where
  "oe p \<longleftrightarrow>
     sig_bit (last_wrdata_en p) (cwl_sys_latency p - 1) \<or>
     sig_bit (last_wrdata_en p) (cwl_sys_latency p) \<or>
     sig_bit (last_wrdata_en p) (cwl_sys_latency p + 1)"

definition dqs_preamble :: "S7DDRPHY \<Rightarrow> bool" where
  "dqs_preamble p \<longleftrightarrow>
     sig_bit (last_wrdata_en p) (dqs_sys_latency p - 1) \<and>
     \<not> sig_bit (last_wrdata_en p) (dqs_sys_latency p)"

definition dqs_postamble :: "S7DDRPHY \<Rightarrow> bool" where
  "dqs_postamble p \<longleftrightarrow>
     sig_bit (last_wrdata_en p) (dqs_sys_latency p + 1) \<and>
     \<not> sig_bit (last_wrdata_en p) (dqs_sys_latency p)"

definition dqs_serdes_pattern :: "inputs \<Rightarrow> S7DDRPHY \<Rightarrow> 8 word" where
  "dqs_serdes_pattern i p =
     (if with_odelay p \<and> wlevel_en_storage i then
        (if wlevel_strobe_re i then 1 else 0)
      else if dqs_preamble p \<or> dqs_postamble p then 0
      else 85)"

text \<open>
  The \<^verbatim>\<open>If\<close>/\<^verbatim>\<open>Elif\<close> of the bitslip register of one pin, under its lane-select bit
  \<^verbatim>\<open>self._dly_sel.storage[i//8]\<close>.
\<close>

definition dq_bitslip_next ::
  "bool \<Rightarrow> bool \<Rightarrow> bool \<Rightarrow> bitslip_value \<Rightarrow> bitslip_value" where
  "dq_bitslip_next sel rst inc v =
     (if sel then (if rst then 0 else if inc then v + 1 else v) else v)"

text \<open>
  The synchronous assignments of the system clock domain: every register takes its next
  value from the inputs and the registers of the current cycle.
\<close>

definition step :: "inputs \<Rightarrow> S7DDRPHY \<Rightarrow> S7DDRPHY" where
  "step i p =
     (let rd = rddata_en i (wrap_index dfi_nphases (rdphase (settings p)));
          wr = wrdata_en i (wrap_index dfi_nphases (wrphase (settings p)));
          wlevel = (with_odelay p \<and> wlevel_en_storage i)
      in p \<lparr>
        n_rddata_en := take (length (n_rddata_en p)) (rd # n_rddata_en p),
        rddata_valid := map (\<lambda>_. last (rd # n_rddata_en p) \<or> wlevel) (rddata_valid p),
        last_wrdata_en :=
          take (length (last_wrdata_en p)) (wr # butlast (last_wrdata_en p)),
        oe_dqs := (if wlevel then True else oe p),
        oe_dq := (if wlevel then False else oe p),
        dq_bitslip_value :=
          map (\<lambda>(k, v). dq_bitslip_next (dly_sel_storage i (k div 8))
                           (rdly_dq_bitslip_rst_re i) (rdly_dq_bitslip_re i) v)
            (enumerate 0 (dq_bitslip_value p)),
        idelay_tap :=
          map (\<lambda>(k, v). IDELAYE2 (dly_sel_storage i (k div 8) \<and> rdly_dq_rst_re i)
                                   (dly_sel_storage i (k div 8) \<and> rdly_dq_inc_re i) v)
            (enumerate 0 (idelay_tap p)) \<rparr>)"

text \<open>
  \<open>run ins t p\<close> is the instance at the start of cycle \<open>t\<close>, when it was \<open>p\<close> at the start of
  cycle 0 and sampled \<open>ins u\<close> in every cycle \<open>u < t\<close>. A register written in cycle \<open>u\<close> shows
  its new value from cycle \<open>u + 1\<close> on.
\<close>

fun run :: "(nat \<Rightarrow> inputs) \<Rightarrow> nat \<Rightarrow> S7DDRPHY \<Rightarrow> S7DDRPHY" where
  "run ins 0 p = p"
| "run ins (Suc t) p = step (ins t) (run ins t p)"

section \<open>Example configuration and stimuli\<close>

text \<open>
  A board with 16 data pins and no output delay lines (the \<^verbatim>\<open>A7DDRPHY\<close> variant), built with
  the constructor's defaults: DDR3, four phases, a 100 MHz system clock and a 200 MHz delay
  reference clock.
\<close>

definition a7_pads :: pads where
  "a7_pads = \<lparr>len_a = 14, len_ba = 3, len_cs_n = None, len_dq = 16\<rparr>"

definition a7_ddr3 :: S7DDRPHY where
  "a7_ddr3 = projr (S7DDRPHY_init a7_pads False ''DDR3'' 4 100000000 200000000)"

text \<open>
  Input streams: nothing asserted; one read-enable or write-enable flag on phase \<open>ph\<close> in
  cycle \<open>T\<close> only; a bitslip reset strobe in cycle 0 followed by eight bitslip strobes, with
  every lane selected; both bitslip strobes at once, with every lane selected; a delay
  increment strobe together with a bitslip strobe while only lane 1 is selected; and that
  cycle followed by cycles without strobes in which every lane is selected. The last
  definition is the example instance after the first three cycles of the bitslip sequence.
\<close>

definition idle :: inputs where
  "idle = \<lparr>rddata_en = (\<lambda>_. False), wrdata_en = (\<lambda>_. False),
     wlevel_en_storage = False, wlevel_strobe_re = False,
     dly_sel_storage = (\<lambda>_. False),
     rdly_dq_rst_re = False, rdly_dq_inc_re = False,
     rdly_dq_bitslip_rst_re = False, rdly_dq_bitslip_re = False\<rparr>"

definition rd_pulse :: "nat \<Rightarrow> nat \<Rightarrow> nat \<Rightarrow> inputs" where
  "rd_pulse ph T t = idle \<lparr>rddata_en := (\<lambda>k. k = ph \<and> t = T)\<rparr>"

definition wr_pulse :: "nat \<Rightarrow> nat \<Rightarrow> nat \<Rightarrow> inputs" where
  "wr_pulse ph T t = idle \<lparr>wrdata_en := (\<lambda>k. k = ph \<and> t = T)\<rparr>"

definition bitslip_sequence :: "nat \<Rightarrow> inputs" where
  "bitslip_sequence t = idle \<lparr>dly_sel_storage := (\<lambda>_. True),
     rdly_dq_bitslip_rst_re := (t = 0),
     rdly_dq_bitslip_re := (1 \<le> t \<and> t \<le> 8)\<rparr>"

definition bitslip_both :: inputs where
  "bitslip_both = idle \<lparr>dly_sel_storage := (\<lambda>_. True),
     rdly_dq_bitslip_rst_re := True, rdly_dq_bitslip_re := True\<rparr>"

definition inc_lane1 :: inputs where
  "inc_lane1 = idle \<lparr>dly_sel_storage := (\<lambda>lane. lane = 1),
     rdly_dq_inc_re := True, rdly_dq_bitslip_re := True\<rparr>"

definition masked_then_selected :: "nat \<Rightarrow> inputs" where
  "masked_then_selected t =
     (if t = 0 then inc_lane1 else idle \<lparr>dly_sel_storage := (\<lambda>_. True)\<rparr>)"

definition a7_ddr3_rotated :: S7DDRPHY where
  "a7_ddr3_rotated = run bitslip_sequence 3 a7_ddr3"

section \<open>Rounding to the nearest float\<close>

lemma round_even_bounds:
  "\<lfloor>z\<rfloor> \<le> round_even z \<and> round_even z \<le> \<lceil>z\<rceil> \<and> \<bar>of_int (round_even z) - z\<bar> \<le> 1 / 2"
proof -
  let ?n = "\<lfloor>z\<rfloor>"
  have f: "of_int ?n \<le> z" "z < of_int ?n + 1" by linarith+
  consider (lo) "z - of_int ?n < 1 / 2" | (hi) "1 / 2 < z - of_int ?n" | (tie) "z - of_int ?n = 1 / 2"
    by linarith
  then show ?thesis
  proof cases
    case lo
    then have r: "round_even z = ?n" by (simp add: round_even_def)
    have "?n \<le> \<lceil>z\<rceil>" by (rule floor_le_ceiling)
    then show ?thesis using r lo f by simp
  next
    case hi
    then have r: "round_even z = ?n + 1" by (simp add: round_even_def Let_def)
    have "of_int ?n < z" using hi by linarith
    then have "?n < \<lceil>z\<rceil>" by (simp add: less_ceiling_iff)
    then show ?thesis using r hi f by simp
  next
    case tie
    then have r: "round_even z = ?n \<or> round_even z = ?n + 1" by (simp add: round_even_def Let_def)
    have "of_int ?n < z" using tie by linarith
    then have "?n < \<lceil>z\<rceil>" by (simp add: less_ceiling_iff)
    then show ?thesis using r tie f by auto
  qed
qed

lemma round_even_of_int [simp]: "round_even (of_int n) = n"
  by (simp add: round_even_def)

lemma log2_floor_bounds:
  assumes "0 < x"
  shows "2 powi \<lfloor>log 2 x\<rfloor> \<le> x \<and> x < 2 powi (\<lfloor>log 2 x\<rfloor> + 1)"
proof -
  have "(2::real) powr real_of_int \<lfloor>log 2 x\<rfloor> \<le> x \<and> x < 2 powr real_of_int (\<lfloor>log 2 x\<rfloor> + 1)"
    using floor_log_eq_powr_iff [of x 2 "\<lfloor>log 2 x\<rfloor>"] assms by simp
  then show ?thesis by (simp only: powr_real_of_int' [of 2, simplified])
qed

lemma powi_between:
  assumes "(2::real) powi a \<le> x" and "x < 2 powi b"
  shows "a < b"
proof (rule ccontr)
  assume "\<not> a < b"
  then have "b \<le> a" by simp
  then have "(2::real) powi b \<le> 2 powi a" by (intro power_int_increasing) simp_all
  then show False using assms by linarith
qed

lemma exponent_search_bounds:
  "e \<le> exponent_search n e x \<and> exponent_search n e x \<le> e + int n \<and>
   (exponent_search n e x = e \<or> 2 powi (exponent_search n e x + 52) \<le> x) \<and>
   (exponent_search n e x = e + int n \<or> x < 2 powi (exponent_search n e x + 53))"
proof (induction n arbitrary: e)
  case 0
  show ?case by simp
next
  case (Suc n)
  show ?case
  proof (cases "2 powi (e + 53) \<le> x")
    case True
    let ?r = "exponent_search n (e + 1) x"
    have r: "exponent_search (Suc n) e x = ?r" using True by simp
    have ih: "e + 1 \<le> ?r" "?r \<le> e + 1 + int n"
      "?r = e + 1 \<or> 2 powi (?r + 52) \<le> x"
      "?r = e + 1 + int n \<or> x < 2 powi (?r + 53)"
      using Suc.IH [of "e + 1"] by blast+
    have "2 powi (?r + 52) \<le> x"
    proof (cases "?r = e + 1")
      case e1: True
      have eq: "?r + 52 = e + 53" using e1 by simp
      show ?thesis unfolding eq by (rule True)
    next
      case False
      then show ?thesis using ih(3) by blast
    qed
    then show ?thesis unfolding r using ih(1,2,4) by auto
  next
    case False
    then show ?thesis by simp
  qed
qed

lemma float_exponent_range: "- 1074 \<le> float_exponent x \<and> float_exponent x \<le> 971"
  using exponent_search_bounds [of "- 1074" 2045 "\<bar>x\<bar>"] by (simp add: float_exponent_def)

lemma float_exponent_lower:
  "float_exponent x = - 1074 \<or> 2 powi (float_exponent x + 52) \<le> \<bar>x\<bar>"
  using exponent_search_bounds [of "- 1074" 2045 "\<bar>x\<bar>"] by (simp add: float_exponent_def)

lemma float_exponent_upper:
  "float_exponent x = 971 \<or> \<bar>x\<bar> < 2 powi (float_exponent x + 53)"
  using exponent_search_bounds [of "- 1074" 2045 "\<bar>x\<bar>"] by (simp add: float_exponent_def)

lemma float_exponent_eval:
  assumes lo: "2 powi k \<le> \<bar>x\<bar>" and hi: "\<bar>x\<bar> < 2 powi (k + 1)" and k: "k \<le> 1023"
  shows "float_exponent x = max (k - 52) (- 1074)"
proof -
  let ?e = "float_exponent x"
  have r: "- 1074 \<le> ?e" "?e \<le> 971" using float_exponent_range [of x] by simp_all
  have up: "?e \<le> max (k - 52) (- 1074)"
  proof (cases "?e = - 1074")
    case True
    then show ?thesis by simp
  next
    case False
    then have "2 powi (?e + 52) \<le> \<bar>x\<bar>" using float_exponent_lower [of x] by blast
    then have "?e + 52 < k + 1" using hi by (rule powi_between)
    then show ?thesis by simp
  qed
  have "k - 52 \<le> ?e"
  proof (cases "?e = 971")
    case True
    then show ?thesis using k by simp
  next
    case False
    then have "\<bar>x\<bar> < 2 powi (?e + 53)" using float_exponent_upper [of x] by blast
    with lo have "k < ?e + 53" by (rule powi_between)
    then show ?thesis by simp
  qed
  then show ?thesis using up r by simp
qed

lemma float_exponent_huge:
  assumes "2 ^ 1024 \<le> \<bar>x\<bar>"
  shows "float_exponent x = 971"
proof (rule ccontr)
  assume n: "float_exponent x \<noteq> 971"
  then have "\<bar>x\<bar> < 2 powi (float_exponent x + 53)" using float_exponent_upper [of x] by blast
  moreover have "(2::real) powi 1024 \<le> \<bar>x\<bar>" using assms by simp
  ultimately have "1024 < float_exponent x + 53" by (intro powi_between)
  then show False using float_exponent_range [of x] n by simp
qed

lemma float_exponent_zero [simp]: "float_exponent 0 = - 1074"
proof -
  have "\<not> (2::real) powi (float_exponent 0 + 52) \<le> \<bar>0\<bar>" by (simp add: not_le)
  then show ?thesis using float_exponent_lower [of 0] by blast
qed


lemma magnitude_error: "\<bar>magnitude x - \<bar>x\<bar>\<bar> \<le> 2 powi float_exponent x / 2"
proof -
  let ?p = "(2::real) powi float_exponent x"
  let ?z = "\<bar>x\<bar> / ?p"
  have p: "0 < ?p" by simp
  have "magnitude x - \<bar>x\<bar> = (of_int (round_even ?z) - ?z) * ?p"
    using p by (simp add: magnitude_def algebra_simps)
  then have "\<bar>magnitude x - \<bar>x\<bar>\<bar> = \<bar>of_int (round_even ?z) - ?z\<bar> * ?p"
    using p by (simp add: abs_mult)
  also have "\<dots> \<le> (1 / 2) * ?p"
    using round_even_bounds [of ?z] p by (intro mult_right_mono) simp_all
  finally show ?thesis by simp
qed

lemma round_even_zero [simp]: "round_even 0 = 0"
  using round_even_of_int [of 0] by simp

lemma magnitude_zero [simp]: "magnitude 0 = 0"
  by (simp add: magnitude_def)

lemma float_exponent_nonzero:
  assumes "x \<noteq> 0" and "\<bar>x\<bar> < 2 ^ 1024"
  obtains k where "float_exponent x = max (k - 52) (- 1074)"
    and "2 powi k \<le> \<bar>x\<bar>" and "\<bar>x\<bar> < 2 powi (k + 1)"
proof -
  have x: "0 < \<bar>x\<bar>" using assms(1) by simp
  let ?k = "\<lfloor>log 2 \<bar>x\<bar>\<rfloor>"
  have b: "2 powi ?k \<le> \<bar>x\<bar>" "\<bar>x\<bar> < 2 powi (?k + 1)"
    using log2_floor_bounds [OF x] by simp_all
  have "\<bar>x\<bar> < 2 powi 1024" using assms(2) by simp
  with b(1) have "?k < 1024" by (rule powi_between)
  then have "?k \<le> 1023" by simp
  then have "float_exponent x = max (?k - 52) (- 1074)"
    by (rule float_exponent_eval [OF b])
  then show thesis using b by (rule that)
qed

lemma float_exponent_huge_le:
  assumes "2 ^ 1024 \<le> \<bar>x\<bar>"
  shows "2 powi float_exponent x \<le> \<bar>x\<bar> / 2 ^ 52"
proof -
  have "(2::real) powi float_exponent x = 2 powi 971"
    by (simp only: float_exponent_huge [OF assms])
  also have "\<dots> \<le> 2 powi 972" by (intro power_int_increasing) simp_all
  also have "\<dots> = 2 ^ 1024 / 2 ^ 52" by simp
  also have "\<dots> \<le> \<bar>x\<bar> / 2 ^ 52" using assms by (rule divide_right_mono) simp
  finally show ?thesis .
qed

lemma pow_float_exponent_le:
  assumes "x \<noteq> 0"
  shows "2 powi float_exponent x \<le> max (\<bar>x\<bar> / 2 ^ 52) (2 powi (- 1074))"
proof (cases "\<bar>x\<bar> < 2 ^ 1024")
  case small: True
  obtain k where e: "float_exponent x = max (k - 52) (- 1074)"
    and lo: "2 powi k \<le> \<bar>x\<bar>"
    by (rule float_exponent_nonzero [OF assms small])
  show ?thesis
  proof (cases "- 1074 \<le> k - 52")
    case True
    then have "float_exponent x = k - 52" using e by simp
    then have "(2::real) powi float_exponent x = 2 powi k / 2 ^ 52"
      by (simp add: power_int_diff)
    also have "\<dots> \<le> \<bar>x\<bar> / 2 ^ 52"
      using lo by (simp add: divide_right_mono)
    finally show ?thesis by simp
  next
    case False
    then have "float_exponent x = - 1074" using e by simp
    then show ?thesis by simp
  qed
next
  case False
  then have "2 ^ 1024 \<le> \<bar>x\<bar>" by simp
  then have "2 powi float_exponent x \<le> \<bar>x\<bar> / 2 ^ 52" by (rule float_exponent_huge_le)
  then show ?thesis by simp
qed

lemma normal_float_exponent:
  assumes "2 powi (- 1022) \<le> \<bar>x\<bar>"
  shows "2 powi float_exponent x \<le> \<bar>x\<bar> / 2 ^ 52"
proof (cases "\<bar>x\<bar> < 2 ^ 1024")
  case small: True
  have "(0::real) < 2 powi (- 1022)" by simp
  then have x: "0 < \<bar>x\<bar>" using assms by linarith
  then have x0: "x \<noteq> 0" by auto
  obtain k where e: "float_exponent x = max (k - 52) (- 1074)"
    and lo: "2 powi k \<le> \<bar>x\<bar>" and hi: "\<bar>x\<bar> < 2 powi (k + 1)"
    by (rule float_exponent_nonzero [OF x0 small])
  have "- 1022 < k + 1" using assms hi by (rule powi_between)
  then have "float_exponent x = k - 52" using e by simp
  then have "(2::real) powi float_exponent x = 2 powi k / 2 ^ 52"
    by (simp add: power_int_diff)
  also have "\<dots> \<le> \<bar>x\<bar> / 2 ^ 52"
    using lo by (simp add: divide_right_mono)
  finally show ?thesis .
next
  case False
  then have "2 ^ 1024 \<le> \<bar>x\<bar>" by simp
  then show ?thesis by (rule float_exponent_huge_le)
qed

lemma round_double_not_NaN [simp]: "round_double x \<noteq> NaN"
  by (simp add: round_double_def)

lemma round_double_Finite:
  "magnitude x < 2 ^ 1024 \<Longrightarrow> round_double x = Finite (sgn x * magnitude x)"
  by (simp add: round_double_def)

lemma round_double_zero [simp]: "round_double 0 = Finite 0"
  by (simp add: round_double_def)

text \<open>A value with a significand below \<open>2^53\<close> and an exponent in range is not changed.\<close>

lemma magnitude_exact:
  assumes x: "x = of_int M * 2 powi E" and M: "\<bar>M\<bar> < 2 ^ 53" and E: "- 1074 \<le> E"
  shows "magnitude x = \<bar>x\<bar>"
proof (cases "x = 0")
  case True
  then show ?thesis by simp
next
  case False
  let ?e = "float_exponent x"
  have ax: "\<bar>x\<bar> = of_int \<bar>M\<bar> * 2 powi E" by (simp add: x abs_mult)
  have "real_of_int \<bar>M\<bar> < 2 ^ 53" using M by (metis of_int_less_numeral_power_cancel_iff)
  then have "\<bar>x\<bar> < 2 ^ 53 * 2 powi E"
    unfolding ax by (intro mult_strict_right_mono) simp_all
  also have "\<dots> = 2 powi (53 + E)" by (simp add: power_int_add)
  finally have hi: "\<bar>x\<bar> < 2 powi (53 + E)" .
  have eE: "?e \<le> E"
  proof (cases "?e = - 1074")
    case True
    then show ?thesis using E by simp
  next
    case False
    then have "2 powi (?e + 52) \<le> \<bar>x\<bar>" using float_exponent_lower [of x] by blast
    then have "?e + 52 < 53 + E" using hi by (rule powi_between)
    then show ?thesis by simp
  qed
  have "\<bar>x\<bar> / 2 powi ?e = of_int \<bar>M\<bar> * 2 powi (E - ?e)"
    by (simp add: ax power_int_diff)
  also have "\<dots> = of_int \<bar>M\<bar> * 2 ^ nat (E - ?e)"
    using eE by (simp add: power_int_nonneg_exp)
  also have "\<dots> = of_int (\<bar>M\<bar> * 2 ^ nat (E - ?e))" by simp
  finally have z: "\<bar>x\<bar> / 2 powi ?e = of_int (\<bar>M\<bar> * 2 ^ nat (E - ?e))" .
  have "magnitude x = \<bar>x\<bar> / 2 powi ?e * 2 powi ?e"
    unfolding magnitude_def by (simp only: z round_even_of_int)
  then show ?thesis by simp
qed

lemma round_double_exact:
  assumes x: "x = of_int M * 2 powi E" and M: "\<bar>M\<bar> < 2 ^ 53" and E: "- 1074 \<le> E"
    and E': "E \<le> 971"
  shows "round_double x = Finite x"
proof -
  have m: "magnitude x = \<bar>x\<bar>" by (rule magnitude_exact [OF x M E])
  have ax: "\<bar>x\<bar> = of_int \<bar>M\<bar> * 2 powi E" by (simp add: x abs_mult)
  have "real_of_int \<bar>M\<bar> < 2 ^ 53" using M by (metis of_int_less_numeral_power_cancel_iff)
  then have "\<bar>x\<bar> < 2 ^ 53 * 2 powi E"
    unfolding ax by (intro mult_strict_right_mono) simp_all
  also have "\<dots> \<le> 2 ^ 53 * 2 powi 971"
    using E' by (intro mult_left_mono power_int_increasing) simp_all
  also have "\<dots> = 2 ^ 1024" by simp
  finally have "magnitude x < 2 ^ 1024" using m by simp
  then have "round_double x = Finite (sgn x * \<bar>x\<bar>)" using m by (simp add: round_double_Finite)
  then show ?thesis by (simp add: sgn_mult_abs)
qed

lemma round_double_of_int:
  assumes "\<bar>n\<bar> < 2 ^ 53"
  shows "round_double (of_int n) = Finite (of_int n)"
  using round_double_exact [of "of_int n" n 0] assms by simp

text \<open>Below \<open>2^1023\<close> the result is finite and within half a unit in the last place.\<close>

lemma magnitude_less_overflow:
  assumes "\<bar>x\<bar> < 2 ^ 1023"
  shows "magnitude x < 2 ^ 1024"
proof (cases "x = 0")
  case True
  then show ?thesis by simp
next
  case False
  have "(2::real) powi (- 1074) \<le> 2 powi 0" by (intro power_int_increasing) simp_all
  then have a: "(2::real) powi (- 1074) \<le> 1" by simp
  have "\<bar>x\<bar> / 2 ^ 52 \<le> \<bar>x\<bar>" by (simp add: field_simps)
  then have "max (\<bar>x\<bar> / 2 ^ 52) (2 powi (- 1074)) \<le> 2 ^ 1023" using assms a by auto
  then have "2 powi float_exponent x \<le> (2::real) ^ 1023"
    using pow_float_exponent_le [OF False] by linarith
  then have "magnitude x < 2 ^ 1023 + 2 ^ 1023 / 2"
    using magnitude_error [of x] assms by linarith
  then show ?thesis by simp
qed

lemma round_double_approx:
  assumes "\<bar>x\<bar> < 2 ^ 1023"
  obtains v where "round_double x = Finite v"
    and "\<bar>v - x\<bar> \<le> 2 powi float_exponent x / 2"
proof -
  have r: "round_double x = Finite (sgn x * magnitude x)"
    by (rule round_double_Finite [OF magnitude_less_overflow [OF assms]])
  have "sgn x * \<bar>x\<bar> = x" by (rule mult_sgn_abs)
  then have "sgn x * magnitude x - x = sgn x * (magnitude x - \<bar>x\<bar>)"
    by (simp add: right_diff_distrib)
  then have "\<bar>sgn x * magnitude x - x\<bar> = \<bar>sgn x\<bar> * \<bar>magnitude x - \<bar>x\<bar>\<bar>"
    by (simp add: abs_mult)
  moreover have "\<bar>sgn x\<bar> * \<bar>magnitude x - \<bar>x\<bar>\<bar> \<le> 1 * \<bar>magnitude x - \<bar>x\<bar>\<bar>"
    by (intro mult_right_mono) (simp_all add: abs_sgn_eq)
  ultimately have "\<bar>sgn x * magnitude x - x\<bar> \<le> \<bar>magnitude x - \<bar>x\<bar>\<bar>" by simp
  then have "\<bar>sgn x * magnitude x - x\<bar> \<le> 2 powi float_exponent x / 2"
    using magnitude_error [of x] by (rule order_trans)
  then show thesis using r that by blast
qed

lemma round_double_relative:
  assumes "2 powi (- 1022) \<le> \<bar>x\<bar>" and "\<bar>x\<bar> < 2 ^ 1023"
  obtains v where "round_double x = Finite v" and "\<bar>v - x\<bar> \<le> \<bar>x\<bar> / 2 ^ 53"
proof -
  obtain v where r: "round_double x = Finite v" and a: "\<bar>v - x\<bar> \<le> 2 powi float_exponent x / 2"
    by (rule round_double_approx [OF assms(2)])
  have "2 powi float_exponent x / 2 \<le> \<bar>x\<bar> / 2 ^ 52 / 2"
    using normal_float_exponent [OF assms(1)] by simp
  then have "\<bar>v - x\<bar> \<le> \<bar>x\<bar> / 2 ^ 53" using a by simp
  then show thesis using r that by blast
qed

text \<open>A finite result means an argument below \<open>2^1024\<close>.\<close>

lemma round_double_Finite_bound:
  assumes "round_double x = Finite v"
  shows "\<bar>x\<bar> < 2 ^ 1024"
proof (rule ccontr)
  assume "\<not> \<bar>x\<bar> < 2 ^ 1024"
  then have big: "2 ^ 1024 \<le> \<bar>x\<bar>" by simp
  have ee: "float_exponent x = 971" by (rule float_exponent_huge [OF big])
  let ?p = "(2::real) powi 971"
  have p: "0 < ?p" by simp
  have "(2::real) ^ 53 = 2 ^ 1024 / ?p" by simp
  also have "\<dots> \<le> \<bar>x\<bar> / ?p" using big p by (simp add: divide_right_mono)
  finally have "(2::real) ^ 53 \<le> \<bar>x\<bar> / ?p" .
  then have "(2::int) ^ 53 \<le> \<lfloor>\<bar>x\<bar> / ?p\<rfloor>" by (simp add: le_floor_iff)
  then have "(2::int) ^ 53 \<le> round_even (\<bar>x\<bar> / ?p)"
    using round_even_bounds [of "\<bar>x\<bar> / ?p"] by linarith
  then have "(2::real) ^ 53 \<le> of_int (round_even (\<bar>x\<bar> / ?p))"
    by (metis of_int_le_iff of_int_numeral of_int_power)
  then have A: "2 ^ 53 * ?p \<le> of_int (round_even (\<bar>x\<bar> / ?p)) * ?p"
    using p by (intro mult_right_mono) simp_all
  have B: "2 ^ 53 * ?p = 2 powi 1024" by simp
  have D: "magnitude x = of_int (round_even (\<bar>x\<bar> / ?p)) * ?p"
    by (simp only: magnitude_def ee)
  have "(2::real) powi 1024 \<le> magnitude x" using A B D by linarith
  moreover have "(2::real) powi 1024 = 2 ^ 1024" by simp
  ultimately have "2 ^ 1024 \<le> magnitude x" by (simp only:)
  then have "round_double x \<noteq> Finite v" by (simp only: round_double_def if_True split: if_splits) simp
  then show False using assms by simp
qed

text \<open>Evaluation at a value whose binade is given.\<close>

lemma round_double_eval:
  assumes "2 powi k \<le> \<bar>x\<bar>" and "\<bar>x\<bar> < 2 powi (k + 1)" and "- 1022 \<le> k" and "k \<le> 1022"
  shows "round_double x =
           Finite (sgn x * (of_int (round_even (\<bar>x\<bar> / 2 powi (k - 52))) * 2 powi (k - 52)))"
proof -
  have e: "float_exponent x = k - 52"
    using float_exponent_eval [OF assms(1,2)] assms(3,4) by simp
  have "(2::real) powi (k + 1) \<le> 2 powi 1023"
    using assms(4) by (intro power_int_increasing) simp_all
  then have "\<bar>x\<bar> < 2 ^ 1023" using assms(2) by simp
  then have "round_double x = Finite (sgn x * magnitude x)"
    by (intro round_double_Finite magnitude_less_overflow)
  then show ?thesis by (simp add: magnitude_def e)
qed




text \<open>A float of magnitude at least \<open>2 ^ k\<close> is a multiple of \<open>2 ^ (k - 52)\<close>.\<close>

lemma double_grid:
  assumes d: "round_double x = Finite x" and lo: "2 powi k \<le> \<bar>x\<bar>" and k: "- 1022 \<le> k"
  shows "\<exists>n::int. x = of_int n * 2 powi (k - 52)"
proof -
  have "(0::real) < 2 powi k" by simp
  then have "0 < \<bar>x\<bar>" using lo by linarith
  then have x0: "x \<noteq> 0" by simp
  have small: "\<bar>x\<bar> < 2 ^ 1024" by (rule round_double_Finite_bound [OF d])
  obtain k' where e: "float_exponent x = max (k' - 52) (- 1074)"
    and lo': "2 powi k' \<le> \<bar>x\<bar>" and hi': "\<bar>x\<bar> < 2 powi (k' + 1)"
    by (rule float_exponent_nonzero [OF x0 small])
  have "(2::real) powi k < 2 powi (k' + 1)" using lo hi' by linarith
  then have "k < k' + 1"
    using power_int_increasing [of "k' + 1" k "2::real"] by (cases "k < k' + 1") auto
  then have ee: "k - 52 \<le> float_exponent x" using e k by simp
  let ?e = "float_exponent x"
  let ?r = "round_even (\<bar>x\<bar> / 2 powi ?e)"
  have "x = sgn x * magnitude x"
    using d by (simp add: round_double_def split: if_splits)
  then have "x = sgn x * (of_int ?r * 2 powi ?e)" by (simp only: magnitude_def)
  moreover have "sgn x = of_int (if 0 < x then 1 else - 1)" using x0 by (simp add: sgn_if)
  moreover have "(2::real) powi ?e = 2 powi (?e - (k - 52)) * 2 powi (k - 52)"
    by (simp add: power_int_add [symmetric])
  moreover have "(2::real) powi (?e - (k - 52)) = of_int (2 ^ nat (?e - (k - 52)))"
    using ee by (simp add: power_int_def)
  ultimately have "x = of_int ((if 0 < x then 1 else - 1) * ?r * 2 ^ nat (?e - (k - 52)))
                         * 2 powi (k - 52)"
    by (simp only: of_int_mult mult.assoc)
  then show ?thesis by blast
qed

lemma round_double_numeral:
  "(numeral n :: int) < 2 ^ 53 \<Longrightarrow> round_double (numeral n) = Finite (numeral n)"
  using round_double_of_int [of "numeral n"] by simp

section \<open>Properties of the timing resolver\<close>

lemma scan_cl_cwl_Inr_iff:
  assumes "\<forall>e \<in> set tbl. fst e \<noteq> 0"
  shows "scan_cl_cwl tck tbl = Inr r \<longleftrightarrow>
     (\<exists>i < length tbl. snd (tbl ! i) = r \<and> float_ge tck (round_double (2 / fst (tbl ! i))) \<and>
        (\<forall>j < i. \<not> float_ge tck (round_double (2 / fst (tbl ! j)))))"
  using assms
proof (induction tbl)
  case Nil
  show ?case by simp
next
  case (Cons e tbl)
  obtain f c w where e: "e = (f, c, w)" by (cases e)
  have f0: "f \<noteq> 0" using Cons.prems e by simp
  have IH: "scan_cl_cwl tck tbl = Inr r \<longleftrightarrow>
     (\<exists>i < length tbl. snd (tbl ! i) = r \<and> float_ge tck (round_double (2 / fst (tbl ! i))) \<and>
        (\<forall>j < i. \<not> float_ge tck (round_double (2 / fst (tbl ! j)))))"
    using Cons.prems by (intro Cons.IH) simp
  show ?case
  proof (cases "float_ge tck (round_double (2 / f))")
    case True
    have "(\<exists>i < length (e # tbl). snd ((e # tbl) ! i) = r \<and> float_ge tck (round_double (2 / fst ((e # tbl) ! i))) \<and>
             (\<forall>j < i. \<not> float_ge tck (round_double (2 / fst ((e # tbl) ! j))))) \<longleftrightarrow> (c, w) = r"
    proof
      assume "\<exists>i < length (e # tbl). snd ((e # tbl) ! i) = r \<and>
                float_ge tck (round_double (2 / fst ((e # tbl) ! i))) \<and> (\<forall>j < i. \<not> float_ge tck (round_double (2 / fst ((e # tbl) ! j))))"
      then obtain i where i: "snd ((e # tbl) ! i) = r"
        "\<forall>j < i. \<not> float_ge tck (round_double (2 / fst ((e # tbl) ! j)))" by blast
      have "i = 0"
      proof (rule ccontr)
        assume "i \<noteq> 0"
        then have "\<not> float_ge tck (round_double (2 / fst ((e # tbl) ! 0)))" using i(2) by blast
        then show False using True e by simp
      qed
      then show "(c, w) = r" using i(1) e by simp
    next
      assume "(c, w) = r"
      then have "snd ((e # tbl) ! 0) = r \<and> float_ge tck (round_double (2 / fst ((e # tbl) ! 0))) \<and>
          (\<forall>j < (0::nat). \<not> float_ge tck (round_double (2 / fst ((e # tbl) ! j))))"
        using True e by simp
      then show "\<exists>i < length (e # tbl). snd ((e # tbl) ! i) = r \<and>
                float_ge tck (round_double (2 / fst ((e # tbl) ! i))) \<and> (\<forall>j < i. \<not> float_ge tck (round_double (2 / fst ((e # tbl) ! j))))"
        by (intro exI [of _ 0]) simp
    qed
    then show ?thesis using True e f0 by simp
  next
    case False
    have "(\<exists>i < length (e # tbl). snd ((e # tbl) ! i) = r \<and> float_ge tck (round_double (2 / fst ((e # tbl) ! i))) \<and>
             (\<forall>j < i. \<not> float_ge tck (round_double (2 / fst ((e # tbl) ! j))))) \<longleftrightarrow>
          (\<exists>i < length tbl. snd (tbl ! i) = r \<and> float_ge tck (round_double (2 / fst (tbl ! i))) \<and>
             (\<forall>j < i. \<not> float_ge tck (round_double (2 / fst (tbl ! j)))))"
      (is "?L \<longleftrightarrow> ?R")
    proof
      assume ?L
      then obtain i where i: "i < length (e # tbl)" "snd ((e # tbl) ! i) = r"
        "float_ge tck (round_double (2 / fst ((e # tbl) ! i)))" "\<forall>j < i. \<not> float_ge tck (round_double (2 / fst ((e # tbl) ! j)))"
        by blast
      have "i \<noteq> 0" using i(3) False e by (cases i) auto
      then obtain k where k: "i = Suc k" by (cases i) auto
      have "\<forall>j < k. \<not> float_ge tck (round_double (2 / fst (tbl ! j)))"
      proof (intro allI impI)
        fix j assume "j < k"
        then have "Suc j < i" using k by simp
        then have "\<not> float_ge tck (round_double (2 / fst ((e # tbl) ! Suc j)))" using i(4) by blast
        then show "\<not> float_ge tck (round_double (2 / fst (tbl ! j)))" by simp
      qed
      then show ?R using i k by auto
    next
      assume ?R
      then obtain k where k: "k < length tbl" "snd (tbl ! k) = r" "float_ge tck (round_double (2 / fst (tbl ! k)))"
        "\<forall>j < k. \<not> float_ge tck (round_double (2 / fst (tbl ! j)))" by blast
      have "\<forall>j < Suc k. \<not> float_ge tck (round_double (2 / fst ((e # tbl) ! j)))"
      proof (intro allI impI)
        fix j assume "j < Suc k"
        then show "\<not> float_ge tck (round_double (2 / fst ((e # tbl) ! j)))"
          using k(4) False e by (cases j) auto
      qed
      then show ?L using k by (intro exI [of _ "Suc k"]) simp
    qed
    then show ?thesis using False e f0 IH by simp
  qed
qed

lemma scan_cl_cwl_Inl_iff:
  assumes "\<forall>e \<in> set tbl. fst e \<noteq> 0"
  shows "scan_cl_cwl tck tbl = Inl err \<longleftrightarrow>
     err = ValueError \<and> (\<forall>e \<in> set tbl. \<not> float_ge tck (round_double (2 / fst e)))"
  using assms
proof (induction tbl)
  case Nil
  show ?case by auto
next
  case (Cons e tbl)
  obtain f c w where e: "e = (f, c, w)" by (cases e)
  have f0: "f \<noteq> 0" using Cons.prems e by simp
  have IH: "scan_cl_cwl tck tbl = Inl err \<longleftrightarrow>
     err = ValueError \<and> (\<forall>e \<in> set tbl. \<not> float_ge tck (round_double (2 / fst e)))"
    using Cons.prems by (intro Cons.IH) simp
  show ?case
  proof (cases "float_ge tck (round_double (2 / f))")
    case True
    then show ?thesis using e f0 by auto
  next
    case False
    then show ?thesis using e f0 IH by auto
  qed
qed

lemma f_to_cl_cwl_sorted:
  "f_to_cl_cwl family = Inr tbl \<Longrightarrow> sorted_wrt (<) (map fst tbl)"
  by (auto simp: f_to_cl_cwl_def split: if_splits)

lemma f_to_cl_cwl_nonzero:
  "f_to_cl_cwl family = Inr tbl \<Longrightarrow> \<forall>e \<in> set tbl. fst e \<noteq> 0"
  by (auto simp: f_to_cl_cwl_def split: if_splits)

lemma first_match_lowest:
  fixes tbl :: "(real \<times> int \<times> int) list"
  assumes "sorted_wrt (<) (map fst tbl)" and "i < length tbl"
    and "\<forall>j < i. \<not> float_ge tck (round_double (2 / fst (tbl ! j)))"
    and "k < length tbl" and "float_ge tck (round_double (2 / fst (tbl ! k)))"
  shows "fst (tbl ! i) \<le> fst (tbl ! k)"
proof -
  have "\<not> k < i" using assms(3,5) by blast
  then have "i = k \<or> i < k" by arith
  then show ?thesis
  proof
    assume "i = k" then show ?thesis by simp
  next
    assume "i < k"
    then have "map fst tbl ! i < map fst tbl ! k"
      using assms(1,4) by (simp add: sorted_wrt_iff_nth_less)
    then show ?thesis using assms(2,4) by simp
  qed
qed

text \<open>The float quotients \<^verbatim>\<open>2/f\<close> of the table frequencies.\<close>

lemma threshold_400: "round_double (1 / 200000000) = Finite (6044629098073146 / 2 ^ 80)"
  by (subst round_double_eval [of "- 28"]) (simp_all add: round_even_def Let_def)

lemma threshold_533: "round_double (1 / 266500000) = Finite (4536307015439509 / 2 ^ 80)"
  by (subst round_double_eval [of "- 28"]) (simp_all add: round_even_def Let_def)

lemma threshold_677: "round_double (1 / 338500000) = Finite (7142840883985992 / 2 ^ 81)"
  by (subst round_double_eval [of "- 29"]) (simp_all add: round_even_def Let_def)

lemma threshold_800: "round_double (1 / 400000000) = Finite (6044629098073146 / 2 ^ 81)"
  by (subst round_double_eval [of "- 29"]) (simp_all add: round_even_def Let_def)

lemma threshold_1066: "round_double (1 / 533000000) = Finite (4536307015439509 / 2 ^ 81)"
  by (subst round_double_eval [of "- 29"]) (simp_all add: round_even_def Let_def)

lemma threshold_1333: "round_double (1 / 666500000) = Finite (7255368759877744 / 2 ^ 82)"
  by (subst round_double_eval [of "- 30"]) (simp_all add: round_even_def Let_def)

lemma threshold_1600: "round_double (1 / 800000000) = Finite (6044629098073146 / 2 ^ 82)"
  by (subst round_double_eval [of "- 30"]) (simp_all add: round_even_def Let_def)

lemmas thresholds = threshold_400 threshold_533 threshold_677 threshold_800 threshold_1066
  threshold_1333 threshold_1600

lemma double_ge_800:
  assumes d: "round_double x = Finite x" and x: "1 / 400000000 \<le> x"
  shows "6044629098073146 / 2 ^ 81 \<le> x"
proof -
  have "(2::real) powi (- 29) \<le> 1 / 400000000" by (simp add: power_int_minus field_simps)
  then have "2 powi (- 29) \<le> \<bar>x\<bar>" using x by linarith
  then obtain n :: int where n: "x = of_int n * 2 powi (- 29 - 52)"
    using double_grid [OF d, of "- 29"] by auto
  have p: "(2::real) powi (- 29 - 52) = 1 / 2 ^ 81" by (simp add: power_int_minus field_simps)
  have "1 / 400000000 \<le> real_of_int n / 2 ^ 81" using x n p by simp
  then have "(6044629098073145::real) < real_of_int n" by (simp add: field_simps)
  then have "6044629098073145 < n" by linarith
  then have "6044629098073146 \<le> n" by simp
  then have "(6044629098073146::real) \<le> real_of_int n" by linarith
  then have "6044629098073146 / 2 ^ 81 \<le> real_of_int n / 2 ^ 81"
    by (simp add: divide_right_mono)
  then show ?thesis using n p by simp
qed

lemma get_cl_cw_800:
  assumes "round_double x = Finite x" and "1 / 400000000 \<le> x"
  shows "get_cl_cw ''DDR3'' (Finite x) = Inr (6, 5)"
  using double_ge_800 [OF assms]
  by (simp add: get_cl_cw_def f_to_cl_cwl_def threshold_800)

text \<open>
  Claim C1, as amended. For DDR2 and DDR3 the frequency table is in strictly ascending
  order of frequency, and \<open>get_cl_cw\<close> returns the \<open>(cl, cwl)\<close> of the first entry, in table
  order, whose frequency \<open>f\<close> satisfies \<^verbatim>\<open>tck >= 2/f\<close> as the program evaluates it: the float
  \<open>tck\<close> against the float nearest to \<open>2 / f\<close>. That entry has the lowest frequency of all
  entries that satisfy the test, and \<open>ValueError\<close> is raised exactly when no entry does. For
  DDR3 and any float \<open>tck\<close> of at least 2.5 ns the result is \<open>(6, 5)\<close>.
\<close>

theorem get_cl_cw_first_match:
  fixes memtype :: string and tck :: pyfloat
  assumes "memtype = ''DDR2'' \<or> memtype = ''DDR3''"
  shows "(\<exists>tbl. f_to_cl_cwl memtype = Inr tbl \<and> sorted_wrt (<) (map fst tbl) \<and>
            (\<forall>r. get_cl_cw memtype tck = Inr r \<longleftrightarrow>
               (\<exists>i < length tbl. snd (tbl ! i) = r \<and>
                  float_ge tck (round_double (2 / fst (tbl ! i))) \<and>
                  (\<forall>j < i. \<not> float_ge tck (round_double (2 / fst (tbl ! j)))) \<and>
                  (\<forall>k < length tbl. float_ge tck (round_double (2 / fst (tbl ! k))) \<longrightarrow>
                       fst (tbl ! i) \<le> fst (tbl ! k)))) \<and>
            (\<forall>err. get_cl_cw memtype tck = Inl err \<longleftrightarrow>
               err = ValueError \<and>
               (\<forall>e \<in> set tbl. \<not> float_ge tck (round_double (2 / fst e))))) \<and>
         (\<forall>x. memtype = ''DDR3'' \<and> tck = Finite x \<and> round_double x = Finite x \<and>
              1 / 400000000 \<le> x \<longrightarrow> get_cl_cw memtype tck = Inr (6, 5))"
proof
  obtain tbl where tbl: "f_to_cl_cwl memtype = Inr tbl"
    using assms by (auto simp: f_to_cl_cwl_def)
  have srt: "sorted_wrt (<) (map fst tbl)" by (rule f_to_cl_cwl_sorted [OF tbl])
  have nz: "\<forall>e \<in> set tbl. fst e \<noteq> 0" by (rule f_to_cl_cwl_nonzero [OF tbl])
  have g: "get_cl_cw memtype tck = scan_cl_cwl tck tbl"
    by (simp add: get_cl_cw_def tbl)
  have "get_cl_cw memtype tck = Inr r \<longleftrightarrow>
               (\<exists>i < length tbl. snd (tbl ! i) = r \<and>
                  float_ge tck (round_double (2 / fst (tbl ! i))) \<and>
                  (\<forall>j < i. \<not> float_ge tck (round_double (2 / fst (tbl ! j)))) \<and>
                  (\<forall>k < length tbl. float_ge tck (round_double (2 / fst (tbl ! k))) \<longrightarrow>
                       fst (tbl ! i) \<le> fst (tbl ! k)))" for r
    unfolding g scan_cl_cwl_Inr_iff [OF nz]
    using first_match_lowest [OF srt] by blast
  moreover have "get_cl_cw memtype tck = Inl err \<longleftrightarrow>
               err = ValueError \<and>
               (\<forall>e \<in> set tbl. \<not> float_ge tck (round_double (2 / fst e)))" for err
    unfolding g by (rule scan_cl_cwl_Inl_iff [OF nz])
  ultimately show "\<exists>tbl. f_to_cl_cwl memtype = Inr tbl \<and> sorted_wrt (<) (map fst tbl) \<and>
            (\<forall>r. get_cl_cw memtype tck = Inr r \<longleftrightarrow>
               (\<exists>i < length tbl. snd (tbl ! i) = r \<and>
                  float_ge tck (round_double (2 / fst (tbl ! i))) \<and>
                  (\<forall>j < i. \<not> float_ge tck (round_double (2 / fst (tbl ! j)))) \<and>
                  (\<forall>k < length tbl. float_ge tck (round_double (2 / fst (tbl ! k))) \<longrightarrow>
                       fst (tbl ! i) \<le> fst (tbl ! k)))) \<and>
            (\<forall>err. get_cl_cw memtype tck = Inl err \<longleftrightarrow>
               err = ValueError \<and>
               (\<forall>e \<in> set tbl. \<not> float_ge tck (round_double (2 / fst e))))"
    using tbl srt by blast
next
  show "\<forall>x. memtype = ''DDR3'' \<and> tck = Finite x \<and> round_double x = Finite x \<and>
             1 / 400000000 \<le> x \<longrightarrow> get_cl_cw memtype tck = Inr (6, 5)"
    using get_cl_cw_800 by blast
qed

theorem get_cl_cw_first_match_witness:
  "(''DDR3'' = ''DDR2'' \<or> ''DDR3'' = ''DDR3'') \<and>
   round_double (6044629098073146 / 2 ^ 81) = Finite (6044629098073146 / 2 ^ 81) \<and>
   (1 / 400000000 :: real) \<le> 6044629098073146 / 2 ^ 81 \<and>
   get_cl_cw ''DDR3'' (Finite (6044629098073146 / 2 ^ 81)) = Inr (6, 5)"
proof -
  have a: "''DDR3'' = ''DDR2'' \<or> ''DDR3'' = ''DDR3''" by simp
  have d: "round_double (6044629098073146 / 2 ^ 81) = Finite (6044629098073146 / 2 ^ 81)"
    by (rule round_double_exact [of _ 6044629098073146 "- 81"])
       (simp_all add: power_int_minus field_simps)
  have x: "(1 / 400000000 :: real) \<le> 6044629098073146 / 2 ^ 81" by simp
  have "get_cl_cw ''DDR3'' (Finite (6044629098073146 / 2 ^ 81)) = Inr (6, 5)"
    using get_cl_cw_first_match [OF a, of "Finite (6044629098073146 / 2 ^ 81)"] d x by blast
  then show ?thesis using a d x by blast
qed

theorem get_cl_cw_first_match_counterexample:
  "S7DDRPHY_tck 4 133250000 = Inr (Finite (4536307015439509 / 2 ^ 81)) \<and>
   (4536307015439509 / 2 ^ 81 :: real) < 2 / 1066000000 \<and>
   (2 / 1333000000 :: real) \<le> 4536307015439509 / 2 ^ 81 \<and>
   get_cl_cw ''DDR3'' (Finite (4536307015439509 / 2 ^ 81)) = Inr (7, 6) \<and>
   get_cl_cw ''DDR2'' (Finite (4536307015439509 / 2 ^ 81)) = Inr (7, 5)"
proof -
  have "S7DDRPHY_tck 4 133250000 = Inr (Finite (4536307015439509 / 2 ^ 81))"
    by (simp add: S7DDRPHY_tck_def float_of_int_def and_then_def round_double_numeral
        threshold_1066)
  moreover have "get_cl_cw ''DDR3'' (Finite (4536307015439509 / 2 ^ 81)) = Inr (7, 6)"
    by (simp add: get_cl_cw_def f_to_cl_cwl_def thresholds)
  moreover have "get_cl_cw ''DDR2'' (Finite (4536307015439509 / 2 ^ 81)) = Inr (7, 5)"
    by (simp add: get_cl_cw_def f_to_cl_cwl_def thresholds)
  ultimately show ?thesis by simp
qed

section \<open>Properties of the latency planner\<close>

lemma get_sys_latency_ceiling:
  fixes L N :: int
  assumes N: "0 < N" and L1: "1 \<le> L" and L2: "L < 2 ^ 53"
    and nrm: "real_of_int N \<le> real_of_int L * 2 ^ 1022"
  shows "get_sys_latency N L = Inr \<lceil>real_of_int L / real_of_int N\<rceil>"
proof -
  let ?x = "real_of_int L / real_of_int N"
  have Nr: "0 < real_of_int N" and Lr: "1 \<le> real_of_int L" using N L1 by simp_all
  have L2r: "real_of_int L < 2 ^ 53" using L2 by (metis of_int_less_numeral_power_cancel_iff)
  have x0: "0 < ?x" using Nr Lr by simp
  have N1: "1 \<le> real_of_int N" using N by simp
  have "?x \<le> real_of_int L" using Nr Lr N1 by (simp add: field_simps)
  then have xL: "?x < 2 ^ 53" using L2r by linarith
  have "(2::real) ^ 53 \<le> 2 ^ 1023" by (intro power_increasing) simp_all
  then have hi: "\<bar>?x\<bar> < 2 ^ 1023" using xL x0 by simp
  have A: "1 / 2 ^ 1022 \<le> ?x"
    using nrm Nr by (simp add: field_simps)
  have B: "(2::real) powi (- 1022) = 1 / 2 ^ 1022"
    by (simp add: power_int_minus field_simps)
  have ax: "\<bar>?x\<bar> = ?x" using x0 by (rule abs_of_pos)
  have lo: "2 powi (- 1022) \<le> \<bar>?x\<bar>" by (simp only: B ax A)
  obtain v where r: "round_double ?x = Finite v" and a: "\<bar>v - ?x\<bar> \<le> \<bar>?x\<bar> / 2 ^ 53"
    by (rule round_double_relative [OF lo hi])
  have g: "get_sys_latency N L = Inr \<lceil>v\<rceil>"
    using N r by (simp add: get_sys_latency_def int_true_div_def and_then_def)
  have "\<lceil>v\<rceil> = \<lceil>?x\<rceil>"
  proof (cases "N dvd L")
    case True
    then obtain q where q: "L = N * q" by (rule dvdE)
    have xq: "?x = of_int q" using Nr by (simp add: q)
    have "0 < N * q" using q L1 by simp
    then have q0: "0 < q" using N by (rule zero_less_mult_pos)
    have "1 * q \<le> N * q" using N q0 by (intro mult_right_mono) simp_all
    then have "q \<le> L" using q by simp
    then have "\<bar>q\<bar> < 2 ^ 53" using L2 q0 by simp
    then have "round_double (of_int q) = Finite (of_int q)" by (rule round_double_of_int)
    then show ?thesis using r xq by simp
  next
    case False
    let ?m = "L div N" and ?r = "L mod N"
    have r0: "0 < ?r" using False N by (simp add: dvd_eq_mod_eq_0 pos_mod_sign order_less_le)
    have r1: "?r < N" using N by simp
    have e: "N * ?m + ?r = L" by (rule mult_div_mod_eq)
    have Ld: "real_of_int L = real_of_int N * real_of_int ?m + real_of_int ?r"
      by (rule arg_cong [OF e, of real_of_int, unfolded of_int_add of_int_mult, symmetric])
    have xm: "?x = real_of_int ?m + real_of_int ?r / real_of_int N"
      using Nr by (simp add: Ld field_simps)
    have "1 \<le> real_of_int ?r" using r0 by simp
    then have b1: "1 / real_of_int N \<le> real_of_int ?r / real_of_int N"
      using Nr by (simp add: divide_right_mono)
    have "real_of_int ?r \<le> real_of_int N - 1" using r1 by simp
    then have "real_of_int ?r / real_of_int N \<le> (real_of_int N - 1) / real_of_int N"
      using Nr by (simp add: divide_right_mono)
    also have "\<dots> = 1 - 1 / real_of_int N" using Nr by (simp add: field_simps)
    finally have b2: "real_of_int ?r / real_of_int N \<le> 1 - 1 / real_of_int N" .
    have "?x / 2 ^ 53 = (real_of_int L / 2 ^ 53) / real_of_int N" by simp
    also have "\<dots> < 1 / real_of_int N"
      using L2r Nr by (intro divide_strict_right_mono) simp_all
    finally have er: "\<bar>v - ?x\<bar> < 1 / real_of_int N" using a x0 by simp
    have "real_of_int ?m < v" "v < real_of_int ?m + 1"
      using er b1 b2 xm by linarith+
    then have cv: "\<lceil>v\<rceil> = ?m + 1" by (intro ceiling_unique) simp_all
    have p: "0 < 1 / real_of_int N" using Nr by simp
    have "real_of_int ?m < ?x" "?x \<le> real_of_int ?m + 1"
      using b1 b2 xm p by linarith+
    then have "\<lceil>?x\<rceil> = ?m + 1" by (intro ceiling_unique) simp_all
    then show ?thesis using cv by simp
  qed
  then show ?thesis using g by simp
qed

lemma ceiling_div_bounds:
  fixes L N :: int
  assumes "0 < N"
  shows "(\<lceil>real_of_int L / real_of_int N\<rceil> - 1) * N < L \<and>
         L \<le> \<lceil>real_of_int L / real_of_int N\<rceil> * N"
proof -
  let ?s = "\<lceil>real_of_int L / real_of_int N\<rceil>"
  have N: "0 < real_of_int N" using assms by simp
  have "real_of_int L / real_of_int N \<le> real_of_int ?s" by (rule le_of_int_ceiling)
  then have "real_of_int L \<le> real_of_int ?s * real_of_int N"
    by (rule pos_divide_le_eq [OF N, THEN iffD1])
  then have "real_of_int L \<le> real_of_int (?s * N)" by simp
  then have up: "L \<le> ?s * N" by (simp only: of_int_le_iff)
  have "real_of_int ?s - 1 < real_of_int L / real_of_int N"
    using ceiling_correct [of "real_of_int L / real_of_int N"] by linarith
  then have "(real_of_int ?s - 1) * real_of_int N < real_of_int L"
    by (rule pos_less_divide_eq [OF N, THEN iffD1])
  then have "real_of_int ((?s - 1) * N) < real_of_int L" by simp
  then have lo: "(?s - 1) * N < L" by (simp only: of_int_less_iff)
  show ?thesis using up lo by simp
qed

lemma float_of_int_bound:
  assumes "float_of_int k = Inr a"
  shows "\<bar>real_of_int k\<bar> < 2 ^ 1024"
proof -
  obtain v where "round_double (of_int k) = Finite v"
    using assms by (cases "round_double (real_of_int k)") (simp_all add: float_of_int_def)
  then show ?thesis by (rule round_double_Finite_bound)
qed

lemma get_sys_latency_positive:
  fixes L N :: int
  assumes N: "0 < N" and c: "float_of_int (2 * N) = Inr a" and L1: "2 \<le> L" and L2: "L \<le> 11"
  shows "get_sys_latency N L = Inr \<lceil>real_of_int L / real_of_int N\<rceil>"
proof -
  have "\<bar>real_of_int (2 * N)\<bar> < 2 ^ 1024" by (rule float_of_int_bound [OF c])
  then have "2 * real_of_int N < 2 * 2 ^ 1023" using N by simp
  then have n: "real_of_int N \<le> 2 * 2 ^ 1022" by simp
  have "2 \<le> real_of_int L" using L1 by simp
  then have "2 * (2::real) ^ 1022 \<le> real_of_int L * 2 ^ 1022"
    by (intro mult_right_mono) simp_all
  then have nrm: "real_of_int N \<le> real_of_int L * 2 ^ 1022" using n by linarith
  have "L < 2 ^ 53" using L2 by simp
  then show ?thesis using L1 by (intro get_sys_latency_ceiling [OF N _ _ nrm]) simp_all
qed

text \<open>
  Claim C2, as amended. For a phase count \<open>N\<close> of 2 or 4 and a latency \<open>L\<close> with
  \<open>1 \<le> L < 2 ^ 53\<close>, \<open>get_sys_latency\<close> returns the ceiling of \<open>L / N\<close>, the least number of
  system cycles \<open>s\<close> with \<open>L \<le> s * N\<close>, and \<open>get_sys_phases\<close> returns the data phase
  \<open>sys_latency * N - L\<close> and the command phase \<open>(dat_phase - 1) mod N\<close>.
\<close>

theorem sys_latency_and_phases:
  fixes nphases cas_latency sys_latency :: int
  assumes "nphases = 2 \<or> nphases = 4" and "1 \<le> cas_latency" and "cas_latency < 2 ^ 53"
  shows "get_sys_latency nphases cas_latency
           = Inr \<lceil>real_of_int cas_latency / real_of_int nphases\<rceil> \<and>
         (\<lceil>real_of_int cas_latency / real_of_int nphases\<rceil> - 1) * nphases < cas_latency \<and>
         cas_latency \<le> \<lceil>real_of_int cas_latency / real_of_int nphases\<rceil> * nphases \<and>
         get_sys_phases nphases sys_latency cas_latency
           = Inr ((sys_latency * nphases - cas_latency - 1) mod nphases,
                  sys_latency * nphases - cas_latency)"
proof -
  have N: "0 < nphases" using assms(1) by auto
  have "real_of_int nphases \<le> 4" using assms(1) by auto
  moreover have "(4::real) \<le> 1 * 2 ^ 1022" by simp
  moreover have "1 * (2::real) ^ 1022 \<le> real_of_int cas_latency * 2 ^ 1022"
    using assms(2) by (intro mult_right_mono) simp_all
  ultimately have nrm: "real_of_int nphases \<le> real_of_int cas_latency * 2 ^ 1022"
    by linarith
  have "get_sys_latency nphases cas_latency
           = Inr \<lceil>real_of_int cas_latency / real_of_int nphases\<rceil>"
    by (rule get_sys_latency_ceiling [OF N assms(2) assms(3) nrm])
  moreover have "get_sys_phases nphases sys_latency cas_latency
           = Inr ((sys_latency * nphases - cas_latency - 1) mod nphases,
                  sys_latency * nphases - cas_latency)"
    using N by (simp add: get_sys_phases_def Let_def)
  ultimately show ?thesis using ceiling_div_bounds [OF N, of cas_latency] by simp
qed

theorem sys_latency_and_phases_witness:
  "((4::int) = 2 \<or> (4::int) = 4) \<and> (1::int) \<le> 6 \<and> (6::int) < 2 ^ 53 \<and>
   get_sys_latency 4 6 = Inr 2 \<and> get_sys_phases 4 2 6 = Inr (1, 2)"
proof -
  have a: "(4::int) = 2 \<or> (4::int) = 4" by simp
  have b: "(1::int) \<le> 6" by simp
  have b': "(6::int) < 2 ^ 53" by simp
  have c: "\<lceil>real_of_int 6 / real_of_int 4\<rceil> = 2" by (simp add: ceiling_eq_iff)
  show ?thesis using sys_latency_and_phases [OF a b b', of 2] c by simp
qed

theorem sys_latency_and_phases_counterexample:
  "((2::int) = 2 \<or> (2::int) = 4) \<and> (1::int) \<le> 2 ^ 53 + 1 \<and>
   get_sys_latency 2 (2 ^ 53 + 1) = Inr (2 ^ 52) \<and>
   \<lceil>real_of_int (2 ^ 53 + 1) / real_of_int 2\<rceil> = 2 ^ 52 + 1"
proof -
  have r: "round_double (9007199254740993 / 2) = Finite 4503599627370496"
    by (subst round_double_eval [of 52]) (simp_all add: round_even_def Let_def)
  have "get_sys_latency 2 (2 ^ 53 + 1) = Inr (2 ^ 52)"
    by (simp add: get_sys_latency_def int_true_div_def and_then_def r)
  moreover have "\<lceil>real_of_int (2 ^ 53 + 1) / real_of_int 2\<rceil> = 2 ^ 52 + 1"
    by (simp add: ceiling_eq_iff)
  ultimately show ?thesis by simp
qed

section \<open>What a successful construction yields\<close>

lemma scan_cl_cwl_Inr_mem:
  "scan_cl_cwl tck tbl = Inr r \<Longrightarrow> r \<in> snd ` set tbl"
  by (induction tbl) (auto split: if_splits sum.splits)

lemma f_to_cl_cwl_cases:
  fixes family :: string
  assumes "f_to_cl_cwl family = Inr tbl"
  shows "family = ''DDR2'' \<and> tbl = [(400000000, 3, 2), (533000000, 4, 3), (677000000, 5, 4),
             (800000000, 6, 5), (1066000000, 7, 5)] \<or>
         family = ''DDR3'' \<and> tbl = [(800000000, 6, 5), (1066000000, 7, 6), (1333000000, 10, 7),
             (1600000000, 11, 8)]"
proof (cases "family = ''DDR2''")
  case True
  then show ?thesis using assms by (simp add: f_to_cl_cwl_def)
next
  case False
  then show ?thesis using assms by (cases "family = ''DDR3''") (simp_all add: f_to_cl_cwl_def)
qed

lemma get_cl_cw_range:
  fixes memtype :: string and cl cwl :: int
  assumes "get_cl_cw memtype tck = Inr (cl, cwl)"
  shows "(memtype = ''DDR2'' \<or> memtype = ''DDR3'') \<and>
         3 \<le> cl \<and> cl \<le> 11 \<and> 2 \<le> cwl \<and> cwl \<le> 8"
proof -
  from assms obtain tbl where tbl: "f_to_cl_cwl memtype = Inr tbl"
    and s: "scan_cl_cwl tck tbl = Inr (cl, cwl)"
    by (cases "f_to_cl_cwl memtype") (auto simp: get_cl_cw_def)
  have m: "(cl, cwl) \<in> snd ` set tbl" by (rule scan_cl_cwl_Inr_mem [OF s])
  from f_to_cl_cwl_cases [OF tbl] show ?thesis
  proof
    assume a: "memtype = ''DDR2'' \<and> tbl = [(400000000, 3, 2), (533000000, 4, 3), (677000000, 5, 4),
             (800000000, 6, 5), (1066000000, 7, 5)]"
    then have "(cl, cwl) \<in> {(3, 2), (4, 3), (5, 4), (6, 5), (7, 5)}" using m by simp
    then show ?thesis using a by auto
  next
    assume a: "memtype = ''DDR3'' \<and> tbl = [(800000000, 6, 5), (1066000000, 7, 6), (1333000000, 10, 7),
             (1600000000, 11, 8)]"
    then have "(cl, cwl) \<in> {(6, 5), (7, 6), (10, 7), (11, 8)}" using m by simp
    then show ?thesis using a by auto
  qed
qed

lemma lanes_cover_pins:
  "list_ex (\<lambda>i. \<not> signal_index_ok (n div 8) (int (i div 8))) [0 ..< n] \<longleftrightarrow> n mod 8 \<noteq> 0"
proof
  assume "list_ex (\<lambda>i. \<not> signal_index_ok (n div 8) (int (i div 8))) [0 ..< n]"
  then obtain i where i: "i < n" "\<not> i div 8 < n div 8"
    by (auto simp: list_ex_iff signal_index_ok_def)
  show "n mod 8 \<noteq> 0"
  proof
    assume "n mod 8 = 0"
    then have n: "n div 8 * 8 = n" by (simp add: mod_eq_0_iff_dvd)
    have "i div 8 < n div 8 \<longleftrightarrow> i < n div 8 * 8"
      by (rule div_less_iff_less_mult) simp
    then show False using i n by simp
  qed
next
  assume m: "n mod 8 \<noteq> 0"
  let ?i = "n div 8 * 8"
  have "?i + n mod 8 = n" by simp
  then have lt: "?i < n" using m by linarith
  have "\<not> ?i div 8 < n div 8" by simp
  then show "list_ex (\<lambda>i. \<not> signal_index_ok (n div 8) (int (i div 8))) [0 ..< n]"
    using lt unfolding list_ex_iff signal_index_ok_def by (intro bexI [of _ ?i]) simp_all
qed

text \<open>
  The constructor once the clock period, the tap count, the timing and the system latencies
  are known: what is left is the elaboration.
\<close>

lemma S7DDRPHY_init_unfold:
  fixes memtype :: string and with_odelay :: bool and nphases :: int and cl cwl :: int
  assumes a: "\<not> (memtype = ''DDR3'' \<and> nphases = 2)"
    and n0: "nphases \<noteq> 0"
    and tck: "S7DDRPHY_tck nphases sys_clk_freq = Inr tck"
    and tap: "iodelay_tap_average iodelay_clk_freq = Inr tap"
    and th: "and_then (float_div tck (float_mul (Finite 4) tap)) math_floor = Inr h"
    and dq8: "len_dq pads div 8 \<noteq> 0"
    and g: "get_cl_cw memtype tck = Inr (cl, cwl)"
    and ls1: "get_sys_latency nphases cl = Inr cl_sys"
    and ls2: "get_sys_latency nphases cwl = Inr cwl_sys"
  shows "S7DDRPHY_init pads with_odelay memtype nphases sys_clk_freq iodelay_clk_freq =
       (if len_dq pads mod 8 \<noteq> 0 then Inl IndexError
        else if \<not> index_ok dfi_nphases (cl_sys * nphases - cl) then Inl IndexError
        else if cwl_sys + 2 \<le> 0 then Inl ValueError
        else if \<not> index_ok dfi_nphases (cwl_sys * nphases - cwl) then Inl IndexError
        else if \<not> (signal_index_ok (nat (cwl_sys + 2)) (cwl_sys - 1) \<and>
                    signal_index_ok (nat (cwl_sys + 2)) cwl_sys \<and>
                    signal_index_ok (nat (cwl_sys + 2)) (cwl_sys + 1)) then Inl IndexError
        else if \<not> (signal_index_ok (nat (cwl_sys + 2))
                      ((if memtype = ''DDR2'' then cwl_sys - 1
                        else if with_odelay then cwl_sys - 1 else cwl_sys) - 1) \<and>
                    signal_index_ok (nat (cwl_sys + 2))
                      (if memtype = ''DDR2'' then cwl_sys - 1
                       else if with_odelay then cwl_sys - 1 else cwl_sys) \<and>
                    signal_index_ok (nat (cwl_sys + 2))
                      ((if memtype = ''DDR2'' then cwl_sys - 1
                        else if with_odelay then cwl_sys - 1 else cwl_sys) + 1))
          then Inl IndexError
        else Inr \<lparr>
          settings = \<lparr>
              memtype = memtype,
              dfi_databits = 2 * int (len_dq pads),
              nranks = (case len_cs_n pads of None \<Rightarrow> 1 | Some n \<Rightarrow> int n),
              nphases = nphases,
              rdphase = cl_sys * nphases - cl,
              wrphase = cwl_sys * nphases - cwl,
              rdcmdphase = (cl_sys * nphases - cl - 1) mod nphases,
              wrcmdphase = (cwl_sys * nphases - cwl - 1) mod nphases,
              cl = cl,
              cwl = cwl,
              read_latency = 2 + cl_sys + 2 + 3 - 1,
              write_latency = cwl_sys \<rparr>,
          with_odelay = with_odelay,
          half_sys8x_taps = h,
          databits = len_dq pads,
          cwl_sys_latency = cwl_sys,
          dqs_sys_latency = (if memtype = ''DDR2'' then cwl_sys - 1
                       else if with_odelay then cwl_sys - 1 else cwl_sys),
          n_rddata_en = replicate (nat (2 + cl_sys + 2 + 3 - 1 - 1)) False,
          rddata_valid = replicate dfi_nphases False,
          last_wrdata_en = replicate (nat (cwl_sys + 2)) False,
          oe_dqs = False,
          oe_dq = False,
          dq_bitslip_value = replicate (len_dq pads) 0,
          idelay_tap = replicate (len_dq pads) 0 \<rparr>)"
proof -
  obtain taps where taps: "float_div tck (float_mul (Finite 4) tap) = Inr taps"
    and h: "math_floor taps = Inr h"
    using th by (cases "float_div tck (float_mul (Finite 4) tap)") (simp_all add: and_then_def)
  show ?thesis
    by (simp add: a n0 tck tap taps h dq8 g ls1 ls2 S7DDRPHY_init_def and_then_def Let_def
          get_sys_phases_def lanes_cover_pins split del: if_split cong: if_cong)
qed

lemma S7DDRPHY_init_InrE:
  fixes memtype :: string and with_odelay :: bool and nphases :: int
  assumes init: "S7DDRPHY_init pads with_odelay memtype nphases sys_clk_freq iodelay_clk_freq = Inr p"
    and N: "0 < nphases"
  obtains tck tap h cl cwl cl_sys cwl_sys d where
    "\<not> (memtype = ''DDR3'' \<and> nphases = 2)"
    "S7DDRPHY_tck nphases sys_clk_freq = Inr tck"
    "iodelay_tap_average iodelay_clk_freq = Inr tap"
    "and_then (float_div tck (float_mul (Finite 4) tap)) math_floor = Inr h"
    "get_cl_cw memtype tck = Inr (cl, cwl)"
    "cl_sys = \<lceil>real_of_int cl / real_of_int nphases\<rceil>"
    "cwl_sys = \<lceil>real_of_int cwl / real_of_int nphases\<rceil>"
    "d = (if memtype = ''DDR2'' then cwl_sys - 1 else if with_odelay then cwl_sys - 1 else cwl_sys)"
    "len_dq pads div 8 \<noteq> 0"
    "len_dq pads mod 8 = 0"
    "index_ok dfi_nphases (cl_sys * nphases - cl)"
    "index_ok dfi_nphases (cwl_sys * nphases - cwl)"
    "0 < cwl_sys + 2"
    "signal_index_ok (nat (cwl_sys + 2)) (cwl_sys - 1)"
    "signal_index_ok (nat (cwl_sys + 2)) cwl_sys"
    "signal_index_ok (nat (cwl_sys + 2)) (cwl_sys + 1)"
    "signal_index_ok (nat (cwl_sys + 2)) (d - 1)"
    "signal_index_ok (nat (cwl_sys + 2)) d"
    "signal_index_ok (nat (cwl_sys + 2)) (d + 1)"
    "p = \<lparr>
          settings = \<lparr>
              memtype = memtype,
              dfi_databits = 2 * int (len_dq pads),
              nranks = (case len_cs_n pads of None \<Rightarrow> 1 | Some n \<Rightarrow> int n),
              nphases = nphases,
              rdphase = cl_sys * nphases - cl,
              wrphase = cwl_sys * nphases - cwl,
              rdcmdphase = (cl_sys * nphases - cl - 1) mod nphases,
              wrcmdphase = (cwl_sys * nphases - cwl - 1) mod nphases,
              cl = cl,
              cwl = cwl,
              read_latency = 2 + cl_sys + 2 + 3 - 1,
              write_latency = cwl_sys \<rparr>,
          with_odelay = with_odelay,
          half_sys8x_taps = h,
          databits = len_dq pads,
          cwl_sys_latency = cwl_sys,
          dqs_sys_latency = d,
          n_rddata_en = replicate (nat (2 + cl_sys + 2 + 3 - 1 - 1)) False,
          rddata_valid = replicate dfi_nphases False,
          last_wrdata_en = replicate (nat (cwl_sys + 2)) False,
          oe_dqs = False,
          oe_dq = False,
          dq_bitslip_value = replicate (len_dq pads) 0,
          idelay_tap = replicate (len_dq pads) 0 \<rparr>"
proof -
  let ?init = "S7DDRPHY_init pads with_odelay memtype nphases sys_clk_freq iodelay_clk_freq"
  have a: "\<not> (memtype = ''DDR3'' \<and> nphases = 2)"
  proof
    assume "memtype = ''DDR3'' \<and> nphases = 2"
    then have "?init = Inl AssertionError" by (simp add: S7DDRPHY_init_def)
    then show False using init by simp
  qed
  have n0: "nphases \<noteq> 0" using N by simp
  obtain tck where tck: "S7DDRPHY_tck nphases sys_clk_freq = Inr tck"
    using init a
    by (cases "S7DDRPHY_tck nphases sys_clk_freq") (simp_all add: S7DDRPHY_init_def and_then_def)
  obtain n2 where n2: "float_of_int (2 * nphases) = Inr n2"
    using tck
    by (cases "float_of_int (2 * nphases)") (simp_all add: S7DDRPHY_tck_def and_then_def)
  obtain tap where tap: "iodelay_tap_average iodelay_clk_freq = Inr tap"
    using init a tck
    by (cases "iodelay_tap_average iodelay_clk_freq")
       (simp_all add: S7DDRPHY_init_def and_then_def Let_def)
  obtain taps where taps: "float_div tck (float_mul (Finite 4) tap) = Inr taps"
    using init a tck tap
    by (cases "float_div tck (float_mul (Finite 4) tap)")
       (simp_all add: S7DDRPHY_init_def and_then_def Let_def)
  obtain h where h: "math_floor taps = Inr h"
    using init a tck tap taps
    by (cases "math_floor taps") (simp_all add: S7DDRPHY_init_def and_then_def Let_def)
  have th: "and_then (float_div tck (float_mul (Finite 4) tap)) math_floor = Inr h"
    by (simp add: and_then_def taps h)
  have dq8: "len_dq pads div 8 \<noteq> 0"
  proof
    assume "len_dq pads div 8 = 0"
    then have "?init = Inl ValueError"
      by (simp add: S7DDRPHY_init_def and_then_def Let_def a tck tap taps h)
    then show False using init by simp
  qed
  obtain cl cwl where g: "get_cl_cw memtype tck = Inr (cl, cwl)"
    using init
    by (cases "get_cl_cw memtype tck")
       (auto simp: S7DDRPHY_init_def and_then_def Let_def a tck tap taps h dq8)
  have r: "(memtype = ''DDR2'' \<or> memtype = ''DDR3'') \<and>
           3 \<le> cl \<and> cl \<le> 11 \<and> 2 \<le> cwl \<and> cwl \<le> 8"
    by (rule get_cl_cw_range [OF g])
  let ?cl_sys = "\<lceil>real_of_int cl / real_of_int nphases\<rceil>"
  let ?cwl_sys = "\<lceil>real_of_int cwl / real_of_int nphases\<rceil>"
  have ls1: "get_sys_latency nphases cl = Inr ?cl_sys"
    using r by (intro get_sys_latency_positive [OF N n2]) simp_all
  have ls2: "get_sys_latency nphases cwl = Inr ?cwl_sys"
    using r by (intro get_sys_latency_positive [OF N n2]) simp_all
  let ?d = "if memtype = ''DDR2'' then ?cwl_sys - 1
            else if with_odelay then ?cwl_sys - 1 else ?cwl_sys"
  let ?n = "nat (?cwl_sys + 2)"
  let ?P = "\<lparr>
          settings = \<lparr>
              memtype = memtype,
              dfi_databits = 2 * int (len_dq pads),
              nranks = (case len_cs_n pads of None \<Rightarrow> 1 | Some n \<Rightarrow> int n),
              nphases = nphases,
              rdphase = ?cl_sys * nphases - cl,
              wrphase = ?cwl_sys * nphases - cwl,
              rdcmdphase = (?cl_sys * nphases - cl - 1) mod nphases,
              wrcmdphase = (?cwl_sys * nphases - cwl - 1) mod nphases,
              cl = cl,
              cwl = cwl,
              read_latency = 2 + ?cl_sys + 2 + 3 - 1,
              write_latency = ?cwl_sys \<rparr>,
          with_odelay = with_odelay,
          half_sys8x_taps = h,
          databits = len_dq pads,
          cwl_sys_latency = ?cwl_sys,
          dqs_sys_latency = ?d,
          n_rddata_en = replicate (nat (2 + ?cl_sys + 2 + 3 - 1 - 1)) False,
          rddata_valid = replicate dfi_nphases False,
          last_wrdata_en = replicate (nat (?cwl_sys + 2)) False,
          oe_dqs = False,
          oe_dq = False,
          dq_bitslip_value = replicate (len_dq pads) 0,
          idelay_tap = replicate (len_dq pads) 0 \<rparr>"
  note unfolded = S7DDRPHY_init_unfold [OF a n0 tck tap th dq8 g ls1 ls2, of with_odelay]
  have ok: "len_dq pads mod 8 = 0"
    "index_ok dfi_nphases (?cl_sys * nphases - cl)"
    "index_ok dfi_nphases (?cwl_sys * nphases - cwl)"
    "0 < ?cwl_sys + 2"
    "signal_index_ok ?n (?cwl_sys - 1)" "signal_index_ok ?n ?cwl_sys"
    "signal_index_ok ?n (?cwl_sys + 1)"
    "signal_index_ok ?n (?d - 1)" "signal_index_ok ?n ?d" "signal_index_ok ?n (?d + 1)"
    using init unfolding unfolded by (simp_all split: if_splits)
  have P: "p = ?P"
    using init ok unfolding unfolded by simp
  show thesis
    by (rule that [of tck tap h cl cwl ?cl_sys ?cwl_sys ?d])
       (rule a tck tap th g refl dq8 ok P)+
qed

lemma ceiling_phase_range:
  fixes L N :: int
  assumes "0 < N"
  shows "0 \<le> \<lceil>real_of_int L / real_of_int N\<rceil> * N - L \<and>
         \<lceil>real_of_int L / real_of_int N\<rceil> * N - L < N"
proof -
  let ?s = "\<lceil>real_of_int L / real_of_int N\<rceil>"
  have b: "(?s - 1) * N < L \<and> L \<le> ?s * N" by (rule ceiling_div_bounds [OF assms])
  have "(?s - 1) * N = ?s * N - N" by (simp add: algebra_simps)
  then show ?thesis using b by linarith
qed

lemma ceiling_div_ge_one:
  fixes L N :: int
  assumes "0 < N" and "1 \<le> L"
  shows "1 \<le> \<lceil>real_of_int L / real_of_int N\<rceil>"
proof -
  have "0 < real_of_int L / real_of_int N" using assms by simp
  then have "0 < \<lceil>real_of_int L / real_of_int N\<rceil>" by (simp only: zero_less_ceiling)
  then show ?thesis by simp
qed

lemma S7DDRPHY_init_facts:
  fixes memtype :: string and with_odelay :: bool and nphases :: int
  assumes init: "S7DDRPHY_init pads with_odelay memtype nphases sys_clk_freq iodelay_clk_freq = Inr p"
    and N: "0 < nphases"
  shows "memtype = ''DDR2'' \<or> memtype = ''DDR3''"
    and "PhySettings.nphases (settings p) = nphases"
    and "PhySettings.memtype (settings p) = memtype"
    and "S7DDRPHY.with_odelay p = with_odelay"
    and "cwl_sys_latency p = write_latency (settings p)"
    and "1 \<le> write_latency (settings p)"
    and "7 \<le> read_latency (settings p)"
    and "0 \<le> rdphase (settings p) \<and> rdphase (settings p) < nphases"
    and "0 \<le> wrphase (settings p) \<and> wrphase (settings p) < nphases"
    and "0 \<le> rdcmdphase (settings p) \<and> rdcmdphase (settings p) < nphases"
    and "0 \<le> wrcmdphase (settings p) \<and> wrcmdphase (settings p) < nphases"
    and "n_rddata_en p = replicate (nat (read_latency (settings p) - 1)) False"
    and "rddata_valid p = replicate dfi_nphases False"
    and "last_wrdata_en p = replicate (nat (write_latency (settings p) + 2)) False"
    and "dqs_sys_latency p =
           (if memtype = ''DDR3'' \<and> \<not> with_odelay then write_latency (settings p)
            else write_latency (settings p) - 1)"
    and "length (dq_bitslip_value p) = len_dq pads"
    and "length (idelay_tap p) = len_dq pads"
    and "rdphase (settings p) < int dfi_nphases"
    and "wrphase (settings p) < int dfi_nphases"
proof -
  from init N obtain tck h cl cwl cl_sys cwl_sys d where
    g: "get_cl_cw memtype tck = Inr (cl, cwl)"
    and cl_sys: "cl_sys = \<lceil>real_of_int cl / real_of_int nphases\<rceil>"
    and cwl_sys: "cwl_sys = \<lceil>real_of_int cwl / real_of_int nphases\<rceil>"
    and d: "d = (if memtype = ''DDR2'' then cwl_sys - 1
                 else if with_odelay then cwl_sys - 1 else cwl_sys)"
    and rdi: "index_ok dfi_nphases (cl_sys * nphases - cl)"
    and wri: "index_ok dfi_nphases (cwl_sys * nphases - cwl)"
    and p: "p = \<lparr>
          settings = \<lparr>
              memtype = memtype,
              dfi_databits = 2 * int (len_dq pads),
              nranks = (case len_cs_n pads of None \<Rightarrow> 1 | Some n \<Rightarrow> int n),
              nphases = nphases,
              rdphase = cl_sys * nphases - cl,
              wrphase = cwl_sys * nphases - cwl,
              rdcmdphase = (cl_sys * nphases - cl - 1) mod nphases,
              wrcmdphase = (cwl_sys * nphases - cwl - 1) mod nphases,
              cl = cl,
              cwl = cwl,
              read_latency = 2 + cl_sys + 2 + 3 - 1,
              write_latency = cwl_sys \<rparr>,
          with_odelay = with_odelay,
          half_sys8x_taps = h,
          databits = len_dq pads,
          cwl_sys_latency = cwl_sys,
          dqs_sys_latency = d,
          n_rddata_en = replicate (nat (2 + cl_sys + 2 + 3 - 1 - 1)) False,
          rddata_valid = replicate dfi_nphases False,
          last_wrdata_en = replicate (nat (cwl_sys + 2)) False,
          oe_dqs = False,
          oe_dq = False,
          dq_bitslip_value = replicate (len_dq pads) 0,
          idelay_tap = replicate (len_dq pads) 0 \<rparr>"
    by (rule S7DDRPHY_init_InrE)
  have r: "(memtype = ''DDR2'' \<or> memtype = ''DDR3'') \<and> 3 \<le> cl \<and> cl \<le> 11 \<and> 2 \<le> cwl \<and> cwl \<le> 8"
    by (rule get_cl_cw_range [OF g])
  show "memtype = ''DDR2'' \<or> memtype = ''DDR3''" using r by simp
  show "PhySettings.nphases (settings p) = nphases" by (simp add: p)
  show "PhySettings.memtype (settings p) = memtype" by (simp add: p)
  show "S7DDRPHY.with_odelay p = with_odelay" by (simp add: p)
  show "cwl_sys_latency p = write_latency (settings p)" by (simp add: p)
  have c1: "1 \<le> cl_sys" unfolding cl_sys using r by (intro ceiling_div_ge_one [OF N]) simp
  have c2: "1 \<le> cwl_sys" unfolding cwl_sys using r by (intro ceiling_div_ge_one [OF N]) simp
  show "1 \<le> write_latency (settings p)" using c2 by (simp add: p)
  show "7 \<le> read_latency (settings p)" using c1 by (simp add: p)
  show "0 \<le> rdphase (settings p) \<and> rdphase (settings p) < nphases"
    using ceiling_phase_range [OF N, of cl] by (simp add: p cl_sys)
  show "0 \<le> wrphase (settings p) \<and> wrphase (settings p) < nphases"
    using ceiling_phase_range [OF N, of cwl] by (simp add: p cwl_sys)
  show "0 \<le> rdcmdphase (settings p) \<and> rdcmdphase (settings p) < nphases"
    using N by (simp add: p)
  show "0 \<le> wrcmdphase (settings p) \<and> wrcmdphase (settings p) < nphases"
    using N by (simp add: p)
  show "n_rddata_en p = replicate (nat (read_latency (settings p) - 1)) False"
    by (simp add: p)
  show "rddata_valid p = replicate dfi_nphases False" by (simp add: p)
  show "last_wrdata_en p = replicate (nat (write_latency (settings p) + 2)) False"
    by (simp add: p)
  show "dqs_sys_latency p =
           (if memtype = ''DDR3'' \<and> \<not> with_odelay then write_latency (settings p)
            else write_latency (settings p) - 1)"
    using r by (auto simp: p d)
  show "length (dq_bitslip_value p) = len_dq pads" by (simp add: p)
  show "length (idelay_tap p) = len_dq pads" by (simp add: p)
  show "rdphase (settings p) < int dfi_nphases" using rdi by (simp add: p index_ok_def)
  show "wrphase (settings p) < int dfi_nphases" using wri by (simp add: p index_ok_def)
qed

section \<open>Registers over time\<close>

lemma step_static:
  "settings (step i p) = settings p"
  "with_odelay (step i p) = with_odelay p"
  "cwl_sys_latency (step i p) = cwl_sys_latency p"
  "dqs_sys_latency (step i p) = dqs_sys_latency p"
  "databits (step i p) = databits p"
  "half_sys8x_taps (step i p) = half_sys8x_taps p"
  by (simp_all add: step_def Let_def)

lemma run_static:
  "settings (run ins t p) = settings p"
  "with_odelay (run ins t p) = with_odelay p"
  "cwl_sys_latency (run ins t p) = cwl_sys_latency p"
  "dqs_sys_latency (run ins t p) = dqs_sys_latency p"
  "databits (run ins t p) = databits p"
  "half_sys8x_taps (run ins t p) = half_sys8x_taps p"
  by (induction t) (simp_all add: step_static)

text \<open>One shift of a register of fixed length: bit 0 takes the input, bit \<open>k + 1\<close> takes bit \<open>k\<close>.\<close>

lemma shift_in_nth:
  assumes "k < length h"
  shows "take (length h) (x # h) ! k = (case k of 0 \<Rightarrow> x | Suc j \<Rightarrow> h ! j)"
  using assms by (cases k) simp_all

lemma shift_in_butlast: "take (length h) (x # butlast h) = take (length h) (x # h)"
  by (cases h rule: rev_cases) simp_all

lemma step_registers:
  "n_rddata_en (step i p) =
     take (length (n_rddata_en p))
       (rddata_en i (wrap_index dfi_nphases (rdphase (settings p))) # n_rddata_en p)"
  "last_wrdata_en (step i p) =
     take (length (last_wrdata_en p))
       (wrdata_en i (wrap_index dfi_nphases (wrphase (settings p))) # last_wrdata_en p)"
  "rddata_valid (step i p) =
     replicate (length (rddata_valid p))
       (last (rddata_en i (wrap_index dfi_nphases (rdphase (settings p))) # n_rddata_en p)
        \<or> (with_odelay p \<and> wlevel_en_storage i))"
  by (simp_all add: step_def Let_def shift_in_butlast map_replicate_const)

lemma run_lengths:
  "length (n_rddata_en (run ins t p)) = length (n_rddata_en p)"
  "length (last_wrdata_en (run ins t p)) = length (last_wrdata_en p)"
  "length (rddata_valid (run ins t p)) = length (rddata_valid p)"
  "length (dq_bitslip_value (run ins t p)) = length (dq_bitslip_value p)"
  "length (idelay_tap (run ins t p)) = length (idelay_tap p)"
  by (induction t) (simp_all add: step_registers, simp_all add: step_def Let_def)

text \<open>
  The content of the two shift registers at the start of cycle \<open>t\<close>: position \<open>k\<close> holds the
  flag sampled in cycle \<open>t - 1 - k\<close>, or still its initial value when \<open>t \<le> k\<close>.
\<close>

lemma n_rddata_en_run:
  assumes "k < length (n_rddata_en p)"
  shows "n_rddata_en (run ins t p) ! k =
           (if k < t then rddata_en (ins (t - 1 - k))
                            (wrap_index dfi_nphases (rdphase (settings p)))
            else n_rddata_en p ! (k - t))"
  using assms
proof (induction t arbitrary: k)
  case 0
  show ?case by simp
next
  case (Suc t)
  have len: "k < length (n_rddata_en (run ins t p))" using Suc.prems by (simp add: run_lengths)
  show ?case
  proof (cases k)
    case 0
    then show ?thesis using len by (simp add: step_registers run_static shift_in_nth)
  next
    case (Suc j)
    then have j: "j < length (n_rddata_en p)" using Suc.prems by simp
    show ?thesis using len Suc Suc.IH [OF j]
      by (simp add: step_registers run_static shift_in_nth)
  qed
qed

lemma last_wrdata_en_run:
  assumes "k < length (last_wrdata_en p)"
  shows "last_wrdata_en (run ins t p) ! k =
           (if k < t then wrdata_en (ins (t - 1 - k))
                            (wrap_index dfi_nphases (wrphase (settings p)))
            else last_wrdata_en p ! (k - t))"
  using assms
proof (induction t arbitrary: k)
  case 0
  show ?case by simp
next
  case (Suc t)
  have len: "k < length (last_wrdata_en (run ins t p))"
    using Suc.prems by (simp add: run_lengths)
  show ?case
  proof (cases k)
    case 0
    then show ?thesis using len by (simp add: step_registers run_static shift_in_nth)
  next
    case (Suc j)
    then have j: "j < length (last_wrdata_en p)" using Suc.prems by simp
    show ?thesis using len Suc Suc.IH [OF j]
      by (simp add: step_registers run_static shift_in_nth)
  qed
qed

text \<open>
  The registered \<^verbatim>\<open>rddata_valid\<close> of every phase, one cycle after the end of the chain: with
  a chain of \<open>m\<close> registers it shows in cycle \<open>t\<close> the flag sampled in cycle \<open>t - (m + 1)\<close>.
\<close>

lemma rddata_valid_run:
  assumes "m = length (n_rddata_en p)"
  shows "rddata_valid (run ins (Suc t) p) =
           replicate (length (rddata_valid p))
             ((if m \<le> t then rddata_en (ins (t - m))
                                (wrap_index dfi_nphases (rdphase (settings p)))
               else n_rddata_en p ! (m - 1 - t))
              \<or> (with_odelay p \<and> wlevel_en_storage (ins t)))"
proof -
  let ?c = "n_rddata_en (run ins t p)"
  let ?x = "rddata_en (ins t) (wrap_index dfi_nphases (rdphase (settings p)))"
  have lc: "length ?c = m" by (simp add: run_lengths assms)
  have "last (?x # ?c) = (if m \<le> t then rddata_en (ins (t - m))
                                (wrap_index dfi_nphases (rdphase (settings p)))
               else n_rddata_en p ! (m - 1 - t))"
  proof (cases "m = 0")
    case True
    then show ?thesis using lc by simp
  next
    case False
    then have ne: "?c \<noteq> []" using lc by auto
    have k: "m - 1 < length (n_rddata_en p)" using False assms by simp
    have "last (?x # ?c) = ?c ! (m - 1)" using ne lc by (simp add: last_conv_nth)
    also have "\<dots> = (if m - 1 < t then rddata_en (ins (t - 1 - (m - 1)))
                            (wrap_index dfi_nphases (rdphase (settings p)))
            else n_rddata_en p ! (m - 1 - t))"
      by (rule n_rddata_en_run [OF k])
    also have "\<dots> = (if m \<le> t then rddata_en (ins (t - m))
                                (wrap_index dfi_nphases (rdphase (settings p)))
               else n_rddata_en p ! (m - 1 - t))"
      using False by (auto simp: Suc_diff_Suc)
    finally show ?thesis .
  qed
  then show ?thesis by (simp add: step_registers run_static run_lengths)
qed

lemma wrap_index_nonneg: "0 \<le> k \<Longrightarrow> wrap_index n k = nat k"
  by (simp add: wrap_index_def)

lemma sig_bit_nonneg: "0 \<le> k \<Longrightarrow> sig_bit h k = h ! nat k"
  by (simp add: sig_bit_def wrap_index_def)

section \<open>The example instance\<close>

lemma a7_tck: "S7DDRPHY_tck 4 100000000 = Inr (Finite (6044629098073146 / 2 ^ 81))"
  by (simp add: S7DDRPHY_tck_def float_of_int_def and_then_def round_double_numeral
      threshold_800)

lemma a7_taps:
  "and_then (iodelay_tap_average 200000000) (\<lambda>tap.
     and_then (float_div (Finite (6044629098073146 / 2 ^ 81)) (float_mul (Finite 4) tap))
       math_floor) = Inr 8"
  by (simp add: iodelay_tap_average_def and_then_def round_double_eval [of "- 34"]
      round_double_eval [of "- 32"] round_double_eval [of 3] round_even_def Let_def)

lemma a7_ddr3_value:
  "S7DDRPHY_init a7_pads False ''DDR3'' 4 100000000 200000000 =
     Inr \<lparr>settings =
        \<lparr>memtype = ''DDR3'', dfi_databits = 32, nranks = 1, nphases = 4,
           rdphase = 2, wrphase = 3, rdcmdphase = 1, wrcmdphase = 2, cl = 6,
           cwl = 5, read_latency = 8, write_latency = 2\<rparr>,
        with_odelay = False, half_sys8x_taps = 8, databits = 16,
        cwl_sys_latency = 2, dqs_sys_latency = 2,
        n_rddata_en = replicate 7 False,
        rddata_valid = replicate 4 False,
        last_wrdata_en = replicate 4 False, oe_dqs = False,
        oe_dq = False,
        dq_bitslip_value = replicate 16 0,
        idelay_tap = replicate 16 0\<rparr>"
proof -
  have a: "\<not> (''DDR3'' = ''DDR3'' \<and> (4::int) = 2)" by simp
  have n0: "(4::int) \<noteq> 0" by simp
  have tap: "iodelay_tap_average 200000000 = Inr (round_double (78 / 1000000000000))"
    by (simp add: iodelay_tap_average_def)
  have th: "and_then (float_div (Finite (6044629098073146 / 2 ^ 81))
                        (float_mul (Finite 4) (round_double (78 / 1000000000000))))
              math_floor = Inr 8"
    using a7_taps by (simp add: iodelay_tap_average_def and_then_def)
  have dq8: "len_dq a7_pads div 8 \<noteq> 0" by (simp add: a7_pads_def)
  have g: "get_cl_cw ''DDR3'' (Finite (6044629098073146 / 2 ^ 81)) = Inr (6, 5)"
    by (simp add: get_cl_cw_def f_to_cl_cwl_def threshold_800)
  have l1: "get_sys_latency 4 6 = Inr 2"
    by (simp add: get_sys_latency_def int_true_div_def and_then_def round_double_eval [of 0]
        round_even_def Let_def)
  have l2: "get_sys_latency 4 5 = Inr 2"
    by (simp add: get_sys_latency_def int_true_div_def and_then_def round_double_eval [of 0]
        round_even_def Let_def)
  show ?thesis
    by (subst S7DDRPHY_init_unfold [OF a n0 a7_tck tap th dq8 g l1 l2])
       (simp add: index_ok_def signal_index_ok_def dfi_nphases_def a7_pads_def)
qed

lemma a7_ddr3_init:
  "S7DDRPHY_init a7_pads False ''DDR3'' 4 100000000 200000000 = Inr a7_ddr3"
  by (simp add: a7_ddr3_def a7_ddr3_value)

lemma a7_ddr3_settings:
  "settings a7_ddr3 = \<lparr>memtype = ''DDR3'', dfi_databits = 32, nranks = 1, nphases = 4,
           rdphase = 2, wrphase = 3, rdcmdphase = 1, wrcmdphase = 2, cl = 6,
           cwl = 5, read_latency = 8, write_latency = 2\<rparr>"
  "with_odelay a7_ddr3 = False"
  "cwl_sys_latency a7_ddr3 = 2"
  "dqs_sys_latency a7_ddr3 = 2"
  "n_rddata_en a7_ddr3 = replicate 7 False"
  "rddata_valid a7_ddr3 = replicate 4 False"
  "last_wrdata_en a7_ddr3 = replicate 4 False"
  "dq_bitslip_value a7_ddr3 = replicate 16 0"
  "idelay_tap a7_ddr3 = replicate 16 0"
  by (simp_all add: a7_ddr3_def a7_ddr3_value)

section \<open>Settings\<close>

text \<open>
  Claim C8. Whenever construction succeeds for a positive phase count \<open>N\<close>, the four phase
  indices stored in the settings lie in \<open>[0, N)\<close>, \<open>read_latency\<close> and \<open>write_latency\<close> are
  non-negative, and no sequence of clock cycles changes the settings.
\<close>

theorem settings_invariant:
  fixes memtype :: string and with_odelay :: bool and nphases :: int
  assumes "S7DDRPHY_init pads with_odelay memtype nphases sys_clk_freq iodelay_clk_freq = Inr p"
    and "0 < nphases"
  shows "PhySettings.nphases (settings p) = nphases \<and>
         0 \<le> rdphase (settings p) \<and> rdphase (settings p) < nphases \<and>
         0 \<le> wrphase (settings p) \<and> wrphase (settings p) < nphases \<and>
         0 \<le> rdcmdphase (settings p) \<and> rdcmdphase (settings p) < nphases \<and>
         0 \<le> wrcmdphase (settings p) \<and> wrcmdphase (settings p) < nphases \<and>
         0 \<le> read_latency (settings p) \<and> 0 \<le> write_latency (settings p) \<and>
         settings (run ins t p) = settings p"
proof -
  note f = S7DDRPHY_init_facts [OF assms]
  have "0 \<le> read_latency (settings p)" using f(7) by simp
  moreover have "0 \<le> write_latency (settings p)" using f(6) by simp
  ultimately show ?thesis using f(2) f(8) f(9) f(10) f(11) by (simp add: run_static)
qed

theorem settings_invariant_witness:
  "0 < (4::int) \<and>
   rdphase (settings a7_ddr3) = 2 \<and> wrphase (settings a7_ddr3) = 3 \<and>
   rdcmdphase (settings a7_ddr3) = 1 \<and> wrcmdphase (settings a7_ddr3) = 2 \<and>
   read_latency (settings a7_ddr3) = 8 \<and> write_latency (settings a7_ddr3) = 2 \<and>
   settings (run (rd_pulse 2 0) 5 a7_ddr3) = settings a7_ddr3"
proof -
  have N: "0 < (4::int)" by simp
  have "settings (run (rd_pulse 2 0) 5 a7_ddr3) = settings a7_ddr3"
    using settings_invariant [OF a7_ddr3_init N, of "rd_pulse 2 0" 5] by simp
  moreover have "settings a7_ddr3 = \<lparr>memtype = ''DDR3'', dfi_databits = 32, nranks = 1, nphases = 4,
           rdphase = 2, wrphase = 3, rdcmdphase = 1, wrcmdphase = 2, cl = 6,
           cwl = 5, read_latency = 8, write_latency = 2\<rparr>"
    by (simp add: a7_ddr3_def a7_ddr3_value)
  ultimately show ?thesis by simp
qed

section \<open>Read flow control\<close>

text \<open>
  Claim C3, as amended. For every configuration constructed with a positive phase count,
  with write leveling disabled: when the read-data-enable flag of the designated read phase
  is set in cycle \<open>T\<close> only, the \<open>read_latency - 1\<close> registers of the chain carry the flag one
  after the other (register \<open>k\<close> holds it in cycle \<open>T + k + 1\<close>), and the read-data-valid
  register of every phase of \<^verbatim>\<open>dfi.phases\<close> holds it in cycle \<open>T + read_latency\<close> and in no
  other cycle: the valid output is registered once more after the end of the chain.
\<close>

theorem rddata_valid_after_read_latency:
  fixes memtype :: string and with_odelay :: bool and nphases :: int
  assumes init:
      "S7DDRPHY_init pads with_odelay memtype nphases sys_clk_freq iodelay_clk_freq = Inr p"
    and N: "0 < nphases"
    and pulse: "\<forall>u. rddata_en (ins u) (nat (rdphase (settings p))) \<longleftrightarrow> u = T"
    and nowl: "\<forall>u. \<not> (with_odelay \<and> wlevel_en_storage (ins u))"
  shows "length (n_rddata_en (run ins t p)) = nat (read_latency (settings p) - 1) \<and>
         (\<forall>k < nat (read_latency (settings p) - 1).
            n_rddata_en (run ins t p) ! k \<longleftrightarrow> t = T + k + 1) \<and>
         rddata_valid (run ins t p) =
           replicate dfi_nphases (t = T + nat (read_latency (settings p)))"
proof -
  note f = S7DDRPHY_init_facts [OF init N]
  let ?m = "nat (read_latency (settings p) - 1)"
  let ?ph = "wrap_index dfi_nphases (rdphase (settings p))"
  have ph: "?ph = nat (rdphase (settings p))" using f(8) by (simp add: wrap_index_nonneg)
  have en: "rddata_en (ins u) ?ph \<longleftrightarrow> u = T" for u using pulse ph by simp
  have wo: "S7DDRPHY.with_odelay p = with_odelay" by (rule f(4))
  have len0: "length (n_rddata_en p) = ?m" by (simp add: f(12))
  have rl: "nat (read_latency (settings p)) = Suc ?m" using f(7) by simp
  have a: "length (n_rddata_en (run ins t p)) = ?m" by (simp add: run_lengths len0)
  have b: "n_rddata_en (run ins t p) ! k \<longleftrightarrow> t = T + k + 1" if k: "k < ?m" for k
  proof -
    have k': "k < length (n_rddata_en p)" using k len0 by simp
    have "n_rddata_en (run ins t p) ! k \<longleftrightarrow> (if k < t then t - 1 - k = T else False)"
      using k by (simp add: n_rddata_en_run [OF k'] en f(12))
    also have "\<dots> \<longleftrightarrow> t = T + k + 1" by auto
    finally show ?thesis .
  qed
  have c: "rddata_valid (run ins t p) = replicate dfi_nphases (t = T + nat (read_latency (settings p)))"
  proof (cases t)
    case 0
    then show ?thesis using rl by (simp add: f(13))
  next
    case (Suc s)
    have "rddata_valid (run ins (Suc s) p) =
            replicate (length (rddata_valid p))
              ((if ?m \<le> s then rddata_en (ins (s - ?m)) ?ph
                else n_rddata_en p ! (?m - 1 - s))
               \<or> (S7DDRPHY.with_odelay p \<and> wlevel_en_storage (ins s)))"
      by (rule rddata_valid_run [OF len0 [symmetric]])
    also have "\<dots> = replicate dfi_nphases (if ?m \<le> s then s - ?m = T else False)"
    proof -
      have wl: "\<not> (S7DDRPHY.with_odelay p \<and> wlevel_en_storage (ins s))"
        using nowl wo by blast
      show ?thesis by (simp add: wl en f(12) f(13))
    qed
    also have "(if ?m \<le> s then s - ?m = T else False) \<longleftrightarrow> Suc s = T + Suc ?m" by auto
    finally show ?thesis using Suc rl by simp
  qed
  show ?thesis using a b c by blast
qed

theorem rddata_valid_after_read_latency_witness:
  "0 < (4::int) \<and> read_latency (settings a7_ddr3) = 8 \<and>
   rddata_valid (run (rd_pulse 2 3) 11 a7_ddr3) = replicate dfi_nphases True \<and>
   rddata_valid (run (rd_pulse 2 3) 12 a7_ddr3) = replicate dfi_nphases False"
proof -
  have N: "0 < (4::int)" by simp
  have pulse: "\<forall>u. rddata_en (rd_pulse 2 3 u) (nat (rdphase (settings a7_ddr3))) \<longleftrightarrow> u = 3"
    by (simp add: a7_ddr3_settings rd_pulse_def idle_def)
  have nowl: "\<forall>u. \<not> (False \<and> wlevel_en_storage (rd_pulse 2 3 u))" by simp
  have rl: "read_latency (settings a7_ddr3) = 8" by (simp add: a7_ddr3_settings)
  have a: "rddata_valid (run (rd_pulse 2 3) 11 a7_ddr3) = replicate dfi_nphases True"
    using rddata_valid_after_read_latency [OF a7_ddr3_init N pulse nowl, of 11]
    by (simp add: rl)
  have b: "rddata_valid (run (rd_pulse 2 3) 12 a7_ddr3) = replicate dfi_nphases False"
    using rddata_valid_after_read_latency [OF a7_ddr3_init N pulse nowl, of 12]
    by (simp add: rl)
  show ?thesis using N rl a b by simp
qed

theorem rddata_valid_counterexample:
  "S7DDRPHY_init a7_pads False ''DDR3'' 4 100000000 200000000 = Inr a7_ddr3 \<and>
   rdphase (settings a7_ddr3) = 2 \<and> read_latency (settings a7_ddr3) = 8 \<and>
   rddata_valid (run (rd_pulse 2 0) (0 + 8 - 1) a7_ddr3) = [False, False, False, False] \<and>
   rddata_valid (run (rd_pulse 2 0) (0 + 8) a7_ddr3) = [True, True, True, True]"
proof -
  have len: "7 = length (n_rddata_en a7_ddr3)" by (simp add: a7_ddr3_settings)
  have "rddata_valid (run (rd_pulse 2 0) (Suc 6) a7_ddr3) = [False, False, False, False]"
    unfolding rddata_valid_run [OF len]
    by (simp add: a7_ddr3_settings eval_nat_numeral)
  moreover have "rddata_valid (run (rd_pulse 2 0) (Suc 7) a7_ddr3) = [True, True, True, True]"
    unfolding rddata_valid_run [OF len]
    by (simp add: a7_ddr3_settings eval_nat_numeral rd_pulse_def idle_def wrap_index_def
        dfi_nphases_def)
  moreover have "(0 + 8 - 1 :: nat) = Suc 6" "(0 + 8 :: nat) = Suc 7" by simp_all
  ultimately show ?thesis by (simp only: a7_ddr3_init a7_ddr3_settings PhySettings.simps simp_thms)
qed
section \<open>Write flow control\<close>

text \<open>
  Claim C4. For every configuration constructed with a positive phase count, in every
  cycle: \<open>last_wrdata_en\<close> has \<open>write_latency + 2\<close> bits and shifts in the write-data-enable
  flag of the write phase; \<open>oe\<close> is the disjunction of its bits \<open>write_latency - 1\<close>,
  \<open>write_latency\<close> and \<open>write_latency + 1\<close>; the registers \<open>oe_dq\<close> and \<open>oe_dqs\<close> take the value
  of \<open>oe\<close> at the next clock edge unless write leveling overrides them. Consequently, when
  the flag is set in cycle \<open>T\<close> only, it stands at position \<open>k\<close> in cycle \<open>T + k + 1\<close>, and \<open>oe\<close>
  is set in exactly the three consecutive cycles in which the flag stands at the positions
  \<open>write_latency - 1\<close>, \<open>write_latency\<close>, \<open>write_latency + 1\<close>, the window centred on position
  \<open>write_latency\<close>: the cycles \<open>T + write_latency\<close> to \<open>T + write_latency + 2\<close>.
\<close>

theorem oe_window:
  fixes memtype :: string and with_odelay :: bool and nphases :: int
  assumes init:
      "S7DDRPHY_init pads with_odelay memtype nphases sys_clk_freq iodelay_clk_freq = Inr p"
    and N: "0 < nphases"
  shows "length (last_wrdata_en (run ins t p)) = nat (write_latency (settings p) + 2) \<and>
         last_wrdata_en (run ins (Suc t) p) =
           wrdata_en (ins t) (nat (wrphase (settings p))) # butlast (last_wrdata_en (run ins t p)) \<and>
         (oe (run ins t p) \<longleftrightarrow>
            last_wrdata_en (run ins t p) ! nat (write_latency (settings p) - 1) \<or>
            last_wrdata_en (run ins t p) ! nat (write_latency (settings p)) \<or>
            last_wrdata_en (run ins t p) ! nat (write_latency (settings p) + 1)) \<and>
         oe_dq (run ins (Suc t) p) =
           (if with_odelay \<and> wlevel_en_storage (ins t) then False else oe (run ins t p)) \<and>
         oe_dqs (run ins (Suc t) p) =
           (if with_odelay \<and> wlevel_en_storage (ins t) then True else oe (run ins t p)) \<and>
         ((\<forall>u. wrdata_en (ins u) (nat (wrphase (settings p))) \<longleftrightarrow> u = T) \<longrightarrow>
            (\<forall>k < nat (write_latency (settings p) + 2).
               last_wrdata_en (run ins t p) ! k \<longleftrightarrow> t = T + k + 1) \<and>
            (oe (run ins t p) \<longleftrightarrow>
               T + nat (write_latency (settings p)) \<le> t \<and>
               t \<le> T + nat (write_latency (settings p)) + 2))"
proof -
  note f = S7DDRPHY_init_facts [OF init N]
  let ?wl = "write_latency (settings p)"
  let ?n = "nat (?wl + 2)"
  let ?h = "last_wrdata_en (run ins t p)"
  let ?ph = "wrap_index dfi_nphases (wrphase (settings p))"
  have ph: "?ph = nat (wrphase (settings p))" using f(9) by (simp add: wrap_index_nonneg)
  have wl1: "1 \<le> ?wl" by (rule f(6))
  have len0: "length (last_wrdata_en p) = ?n" by (simp add: f(14))
  have len: "length ?h = ?n" by (simp add: run_lengths len0)
  have ne: "?h \<noteq> []" using len wl1 by auto
  have shift: "last_wrdata_en (run ins (Suc t) p) =
           wrdata_en (ins t) (nat (wrphase (settings p))) # butlast ?h"
  proof -
    have "last_wrdata_en (run ins (Suc t) p) =
            take (length ?h) (wrdata_en (ins t) ?ph # butlast ?h)"
      by (simp add: step_def Let_def run_static)
    also have "\<dots> = wrdata_en (ins t) ?ph # butlast ?h" using ne by simp
    finally show ?thesis using ph by simp
  qed
  have oe_bits: "oe (run ins t p) \<longleftrightarrow>
            ?h ! nat (?wl - 1) \<or> ?h ! nat ?wl \<or> ?h ! nat (?wl + 1)"
    using wl1 by (simp add: oe_def run_static f(5) sig_bit_nonneg)
  have reg_dq: "oe_dq (run ins (Suc t) p) =
           (if with_odelay \<and> wlevel_en_storage (ins t) then False else oe (run ins t p))"
    by (simp add: step_def Let_def run_static f(4))
  have reg_dqs: "oe_dqs (run ins (Suc t) p) =
           (if with_odelay \<and> wlevel_en_storage (ins t) then True else oe (run ins t p))"
    by (simp add: step_def Let_def run_static f(4))
  have cons: "(\<forall>k < ?n. ?h ! k \<longleftrightarrow> t = T + k + 1) \<and>
            (oe (run ins t p) \<longleftrightarrow> T + nat ?wl \<le> t \<and> t \<le> T + nat ?wl + 2)"
    if pulse: "\<forall>u. wrdata_en (ins u) (nat (wrphase (settings p))) \<longleftrightarrow> u = T"
  proof -
    have en: "wrdata_en (ins u) ?ph \<longleftrightarrow> u = T" for u using pulse ph by simp
    have pos: "?h ! k \<longleftrightarrow> t = T + k + 1" if k: "k < ?n" for k
    proof -
      have k': "k < length (last_wrdata_en p)" using k len0 by simp
      have "?h ! k \<longleftrightarrow> (if k < t then t - 1 - k = T else False)"
        using k by (simp add: last_wrdata_en_run [OF k'] en f(14))
      also have "\<dots> \<longleftrightarrow> t = T + k + 1" by auto
      finally show ?thesis .
    qed
    have k1: "nat (?wl - 1) < ?n" and k2: "nat ?wl < ?n" and k3: "nat (?wl + 1) < ?n"
      using wl1 by simp_all
    have "oe (run ins t p) \<longleftrightarrow>
            t = T + nat (?wl - 1) + 1 \<or> t = T + nat ?wl + 1 \<or> t = T + nat (?wl + 1) + 1"
      unfolding oe_bits pos [OF k1] pos [OF k2] pos [OF k3] ..
    also have "\<dots> \<longleftrightarrow> T + nat ?wl \<le> t \<and> t \<le> T + nat ?wl + 2"
      using wl1 by (auto simp: nat_diff_distrib nat_add_distrib)
    finally show ?thesis using pos by blast
  qed
  show ?thesis using len shift oe_bits reg_dq reg_dqs cons by blast
qed

theorem oe_window_witness:
  "0 < (4::int) \<and> write_latency (settings a7_ddr3) = 2 \<and>
   \<not> oe (run (wr_pulse 3 5) 6 a7_ddr3) \<and> oe (run (wr_pulse 3 5) 7 a7_ddr3) \<and>
   oe (run (wr_pulse 3 5) 8 a7_ddr3) \<and> oe (run (wr_pulse 3 5) 9 a7_ddr3) \<and>
   \<not> oe (run (wr_pulse 3 5) 10 a7_ddr3)"
proof -
  have N: "0 < (4::int)" by simp
  have wl: "write_latency (settings a7_ddr3) = 2" by (simp add: a7_ddr3_settings)
  have pulse: "\<forall>u. wrdata_en (wr_pulse 3 5 u) (nat (wrphase (settings a7_ddr3))) \<longleftrightarrow> u = 5"
    by (simp add: a7_ddr3_settings wr_pulse_def idle_def)
  have "oe (run (wr_pulse 3 5) t a7_ddr3) \<longleftrightarrow>
          5 + nat (write_latency (settings a7_ddr3)) \<le> t \<and>
          t \<le> 5 + nat (write_latency (settings a7_ddr3)) + 2" for t
    using oe_window [OF a7_ddr3_init N, of "wr_pulse 3 5" t 5] pulse by blast
  then have w: "oe (run (wr_pulse 3 5) t a7_ddr3) \<longleftrightarrow> 7 \<le> t \<and> t \<le> 9" for t
    by (simp add: wl)
  show ?thesis using N wl by (simp add: w)
qed

section \<open>Strobe preamble and postamble\<close>

text \<open>
  Claim C5, as amended. For every configuration constructed with a positive phase count,
  \<open>dqs_sys_latency\<close> is \<open>write_latency\<close> for DDR3 without output delay lines and
  \<open>write_latency - 1\<close> otherwise (DDR2, and DDR3 with output delay lines). Where it is at
  least 1, in every cycle the preamble flag is set exactly when bit \<open>dqs_sys_latency - 1\<close> of
  the write-enable history is set and bit \<open>dqs_sys_latency\<close> is clear, and the postamble flag
  exactly when bit \<open>dqs_sys_latency + 1\<close> is set and bit \<open>dqs_sys_latency\<close> is clear; all three
  bits exist.
\<close>

theorem dqs_preamble_postamble:
  fixes memtype :: string and with_odelay :: bool and nphases :: int
  assumes init:
      "S7DDRPHY_init pads with_odelay memtype nphases sys_clk_freq iodelay_clk_freq = Inr p"
    and N: "0 < nphases"
    and d1: "1 \<le> dqs_sys_latency p"
  shows "dqs_sys_latency p =
           (if memtype = ''DDR3'' \<and> \<not> with_odelay then write_latency (settings p)
            else write_latency (settings p) - 1) \<and>
         nat (dqs_sys_latency p + 1) < length (last_wrdata_en (run ins t p)) \<and>
         (dqs_preamble (run ins t p) \<longleftrightarrow>
            last_wrdata_en (run ins t p) ! nat (dqs_sys_latency p - 1) \<and>
            \<not> last_wrdata_en (run ins t p) ! nat (dqs_sys_latency p)) \<and>
         (dqs_postamble (run ins t p) \<longleftrightarrow>
            last_wrdata_en (run ins t p) ! nat (dqs_sys_latency p + 1) \<and>
            \<not> last_wrdata_en (run ins t p) ! nat (dqs_sys_latency p))"
proof -
  note f = S7DDRPHY_init_facts [OF init N]
  have d: "dqs_sys_latency p =
           (if memtype = ''DDR3'' \<and> \<not> with_odelay then write_latency (settings p)
            else write_latency (settings p) - 1)"
    by (rule f(15))
  have "dqs_sys_latency p \<le> write_latency (settings p)" using d by (simp split: if_splits)
  then have "nat (dqs_sys_latency p + 1) < length (last_wrdata_en (run ins t p))"
    using d1 by (simp add: run_lengths f(14))
  moreover have "dqs_preamble (run ins t p) \<longleftrightarrow>
            last_wrdata_en (run ins t p) ! nat (dqs_sys_latency p - 1) \<and>
            \<not> last_wrdata_en (run ins t p) ! nat (dqs_sys_latency p)"
    using d1 by (simp add: dqs_preamble_def run_static sig_bit_nonneg)
  moreover have "dqs_postamble (run ins t p) \<longleftrightarrow>
            last_wrdata_en (run ins t p) ! nat (dqs_sys_latency p + 1) \<and>
            \<not> last_wrdata_en (run ins t p) ! nat (dqs_sys_latency p)"
    using d1 by (simp add: dqs_postamble_def run_static sig_bit_nonneg)
  ultimately show ?thesis using d by blast
qed

lemma a7_ddr3_wr_pulse_history:
  "last_wrdata_en (run (wr_pulse 3 0) 2 a7_ddr3) = [False, True, False, False]"
  by (simp add: eval_nat_numeral step_registers step_static a7_ddr3_settings wr_pulse_def
      idle_def wrap_index_def dfi_nphases_def)

theorem dqs_preamble_postamble_witness:
  "0 < (4::int) \<and> dqs_sys_latency a7_ddr3 = 2 \<and>
   dqs_preamble (run (wr_pulse 3 0) 2 a7_ddr3) \<and>
   \<not> dqs_postamble (run (wr_pulse 3 0) 2 a7_ddr3)"
proof -
  have N: "0 < (4::int)" by simp
  have d: "dqs_sys_latency a7_ddr3 = 2" by (simp add: a7_ddr3_settings)
  have d1: "1 \<le> dqs_sys_latency a7_ddr3" by (simp add: d)
  show ?thesis
    using dqs_preamble_postamble [OF a7_ddr3_init N d1, of "wr_pulse 3 0" 2] N
    by (simp add: d a7_ddr3_wr_pulse_history)
qed

theorem dqs_preamble_counterexample:
  "S7DDRPHY_init a7_pads False ''DDR3'' 4 100000000 200000000 = Inr a7_ddr3 \<and>
   write_latency (settings a7_ddr3) = 2 \<and>
   last_wrdata_en (run (wr_pulse 3 0) 2 a7_ddr3) = [False, True, False, False] \<and>
   dqs_preamble (run (wr_pulse 3 0) 2 a7_ddr3) \<and>
   \<not> (last_wrdata_en (run (wr_pulse 3 0) 2 a7_ddr3) ! nat (write_latency (settings a7_ddr3) - 2) \<and>
      \<not> last_wrdata_en (run (wr_pulse 3 0) 2 a7_ddr3) ! nat (write_latency (settings a7_ddr3)))"
proof -
  have wl: "write_latency (settings a7_ddr3) = 2" by (simp add: a7_ddr3_settings)
  have pre: "dqs_preamble (run (wr_pulse 3 0) 2 a7_ddr3)"
    by (simp add: dqs_preamble_def run_static a7_ddr3_settings a7_ddr3_wr_pulse_history
        sig_bit_def wrap_index_def)
  show ?thesis using pre by (simp add: a7_ddr3_init wl a7_ddr3_wr_pulse_history)
qed

section \<open>Calibration registers\<close>

lemma step_dq_bitslip_value_nth:
  assumes "k < length (dq_bitslip_value p)"
  shows "dq_bitslip_value (step i p) ! k =
           dq_bitslip_next (dly_sel_storage i (k div 8)) (rdly_dq_bitslip_rst_re i)
             (rdly_dq_bitslip_re i) (dq_bitslip_value p ! k)"
  using assms by (simp add: step_def Let_def nth_enumerate_eq)

lemma step_idelay_tap_nth:
  assumes "k < length (idelay_tap p)"
  shows "idelay_tap (step i p) ! k =
           IDELAYE2 (dly_sel_storage i (k div 8) \<and> rdly_dq_rst_re i)
                    (dly_sel_storage i (k div 8) \<and> rdly_dq_inc_re i) (idelay_tap p ! k)"
  using assms by (simp add: step_def Let_def nth_enumerate_eq)

lemma unat_bitslip_inc: "unat (v + 1 :: 3 word) = (unat v + 1) mod 8"
  by (simp add: unat_word_ariths)

text \<open>After a reset strobe in cycle 0, \<open>n\<close> increment strobes leave the rotation at \<open>n\<close>.\<close>

lemma bitslip_after_incs:
  assumes k: "k < length (dq_bitslip_value p)"
    and sel: "\<forall>u \<le> n. dly_sel_storage (ins u) (k div 8)"
    and rst: "rdly_dq_bitslip_rst_re (ins 0)"
    and inc: "\<forall>u. 1 \<le> u \<and> u \<le> n \<longrightarrow>
                rdly_dq_bitslip_re (ins u) \<and> \<not> rdly_dq_bitslip_rst_re (ins u)"
  shows "dq_bitslip_value (run ins (Suc n) p) ! k = of_nat n"
  using sel inc
proof (induction n)
  case 0
  have "k < length (dq_bitslip_value (run ins 0 p))" using k by simp
  then show ?case using rst 0 by (simp add: step_dq_bitslip_value_nth dq_bitslip_next_def)
next
  case (Suc n)
  have len: "k < length (dq_bitslip_value (run ins (Suc n) p))"
    using k by (simp only: run_lengths)
  have ih: "dq_bitslip_value (run ins (Suc n) p) ! k = of_nat n"
    using Suc by simp
  have s: "dly_sel_storage (ins (Suc n)) (k div 8)" using Suc.prems(1) by blast
  have i: "rdly_dq_bitslip_re (ins (Suc n)) \<and> \<not> rdly_dq_bitslip_rst_re (ins (Suc n))"
    using Suc.prems(2) by simp
  have "dq_bitslip_value (run ins (Suc (Suc n)) p) ! k =
          dq_bitslip_value (step (ins (Suc n)) (run ins (Suc n) p)) ! k" by simp
  also have "\<dots> = dq_bitslip_value (run ins (Suc n) p) ! k + 1"
    using s i by (simp only: step_dq_bitslip_value_nth [OF len] dq_bitslip_next_def if_True if_False)
  finally show ?case using ih by simp
qed

text \<open>
  Claim C6. For a data pin whose lane is selected: a bitslip strobe without a reset strobe
  adds one to the stored rotation modulo 8; a reset strobe sets it to zero; and after a
  reset strobe in cycle 0 followed by bitslip strobes in cycles 1 to 8 the rotation is zero
  again, as it was just after the reset.
\<close>

theorem bitslip_cyclic:
  assumes k: "k < length (dq_bitslip_value p)"
  shows "(dly_sel_storage i (k div 8) \<and> rdly_dq_bitslip_re i \<and> \<not> rdly_dq_bitslip_rst_re i \<longrightarrow>
            unat (dq_bitslip_value (step i p) ! k) = (unat (dq_bitslip_value p ! k) + 1) mod 8) \<and>
         (dly_sel_storage i (k div 8) \<and> rdly_dq_bitslip_rst_re i \<longrightarrow>
            dq_bitslip_value (step i p) ! k = 0) \<and>
         ((\<forall>u \<le> 8. dly_sel_storage (ins u) (k div 8)) \<and>
          rdly_dq_bitslip_rst_re (ins 0) \<and>
          (\<forall>u. 1 \<le> u \<and> u \<le> 8 \<longrightarrow>
                 rdly_dq_bitslip_re (ins u) \<and> \<not> rdly_dq_bitslip_rst_re (ins u)) \<longrightarrow>
            dq_bitslip_value (run ins 1 p) ! k = 0 \<and>
            dq_bitslip_value (run ins 9 p) ! k = 0)"
proof (intro conjI impI)
  assume "dly_sel_storage i (k div 8) \<and> rdly_dq_bitslip_re i \<and> \<not> rdly_dq_bitslip_rst_re i"
  then show "unat (dq_bitslip_value (step i p) ! k) = (unat (dq_bitslip_value p ! k) + 1) mod 8"
    by (simp add: step_dq_bitslip_value_nth [OF k] dq_bitslip_next_def unat_bitslip_inc)
next
  assume "dly_sel_storage i (k div 8) \<and> rdly_dq_bitslip_rst_re i"
  then show "dq_bitslip_value (step i p) ! k = 0"
    by (simp add: step_dq_bitslip_value_nth [OF k] dq_bitslip_next_def)
next
  assume a: "(\<forall>u \<le> 8. dly_sel_storage (ins u) (k div 8)) \<and>
          rdly_dq_bitslip_rst_re (ins 0) \<and>
          (\<forall>u. 1 \<le> u \<and> u \<le> 8 \<longrightarrow>
                 rdly_dq_bitslip_re (ins u) \<and> \<not> rdly_dq_bitslip_rst_re (ins u))"
  have s0: "\<forall>u \<le> 0. dly_sel_storage (ins u) (k div 8)" using a by simp
  have i0: "\<forall>u. 1 \<le> u \<and> u \<le> 0 \<longrightarrow>
                 rdly_dq_bitslip_re (ins u) \<and> \<not> rdly_dq_bitslip_rst_re (ins u)" by simp
  have "dq_bitslip_value (run ins (Suc 0) p) ! k = of_nat 0"
    using a by (intro bitslip_after_incs [OF k s0 _ i0]) simp
  then show "dq_bitslip_value (run ins 1 p) ! k = 0" by simp
  have "dq_bitslip_value (run ins (Suc 8) p) ! k = of_nat 8"
    using a by (intro bitslip_after_incs [OF k]) simp_all
  moreover have "(of_nat 8 :: 3 word) = 0" by simp
  moreover have "(9::nat) = Suc 8" by simp
  ultimately show "dq_bitslip_value (run ins 9 p) ! k = 0" by (simp only:)
qed

lemma a7_ddr3_rotated_values:
  "length (dq_bitslip_value a7_ddr3_rotated) = 16"
  "length (idelay_tap a7_ddr3_rotated) = 16"
  "dq_bitslip_value a7_ddr3_rotated ! 0 = 2"
  "dq_bitslip_value a7_ddr3_rotated ! 3 = 2"
  "dq_bitslip_value a7_ddr3_rotated ! 12 = 2"
proof -
  show "length (dq_bitslip_value a7_ddr3_rotated) = 16"
    "length (idelay_tap a7_ddr3_rotated) = 16"
    by (simp_all add: a7_ddr3_rotated_def run_lengths a7_ddr3_settings)
  have v: "dq_bitslip_value (run bitslip_sequence (Suc 2) a7_ddr3) ! k = of_nat 2"
    if "k < 16" for k
    using that
    by (intro bitslip_after_incs) (simp_all add: a7_ddr3_settings bitslip_sequence_def idle_def)
  have r: "a7_ddr3_rotated = run bitslip_sequence (Suc 2) a7_ddr3"
    unfolding a7_ddr3_rotated_def by (rule arg_cong [where f = "\<lambda>t. run bitslip_sequence t a7_ddr3"]) simp
  show "dq_bitslip_value a7_ddr3_rotated ! 0 = 2" "dq_bitslip_value a7_ddr3_rotated ! 3 = 2"
    "dq_bitslip_value a7_ddr3_rotated ! 12 = 2"
    unfolding r by (simp_all only: v) simp_all
qed

theorem bitslip_cyclic_witness:
  "unat (dq_bitslip_value (step (bitslip_sequence 1) a7_ddr3_rotated) ! 0) = 3 \<and>
   dq_bitslip_value (step (bitslip_sequence 0) a7_ddr3_rotated) ! 0 = 0 \<and>
   dq_bitslip_value (run bitslip_sequence 1 a7_ddr3_rotated) ! 0 = 0 \<and>
   dq_bitslip_value (run bitslip_sequence 9 a7_ddr3_rotated) ! 0 = 0"
proof -
  have k: "0 < length (dq_bitslip_value a7_ddr3_rotated)"
    by (simp add: a7_ddr3_rotated_values)
  have inc: "dly_sel_storage (bitslip_sequence 1) (0 div 8) \<and> rdly_dq_bitslip_re (bitslip_sequence 1)
      \<and> \<not> rdly_dq_bitslip_rst_re (bitslip_sequence 1)"
    by (simp add: bitslip_sequence_def idle_def)
  have rst: "dly_sel_storage (bitslip_sequence 0) (0 div 8) \<and> rdly_dq_bitslip_rst_re (bitslip_sequence 0)"
    by (simp add: bitslip_sequence_def idle_def)
  have seq: "(\<forall>u \<le> 8. dly_sel_storage (bitslip_sequence u) (0 div 8)) \<and>
          rdly_dq_bitslip_rst_re (bitslip_sequence 0) \<and>
          (\<forall>u. 1 \<le> u \<and> u \<le> 8 \<longrightarrow>
                 rdly_dq_bitslip_re (bitslip_sequence u) \<and> \<not> rdly_dq_bitslip_rst_re (bitslip_sequence u))"
    by (simp add: bitslip_sequence_def idle_def)
  have a: "unat (dq_bitslip_value (step (bitslip_sequence 1) a7_ddr3_rotated) ! 0) = 3"
    using bitslip_cyclic [OF k, of "bitslip_sequence 1" bitslip_sequence] inc
    by (simp add: a7_ddr3_rotated_values)
  have b: "dq_bitslip_value (step (bitslip_sequence 0) a7_ddr3_rotated) ! 0 = 0"
    using bitslip_cyclic [OF k, of "bitslip_sequence 0" bitslip_sequence] rst by blast
  have c: "dq_bitslip_value (run bitslip_sequence 1 a7_ddr3_rotated) ! 0 = 0 \<and>
           dq_bitslip_value (run bitslip_sequence 9 a7_ddr3_rotated) ! 0 = 0"
    using bitslip_cyclic [OF k, of "bitslip_sequence 0" bitslip_sequence] seq by blast
  show ?thesis using a b c by blast
qed

text \<open>
  Claim C10. When the bitslip reset strobe and the bitslip strobe are both set in a cycle
  and the lane of a data pin is selected, the pin's rotation is zero after the clock edge:
  the reset wins and the increment is discarded.
\<close>

theorem bitslip_reset_priority:
  assumes "k < length (dq_bitslip_value p)"
    and "dly_sel_storage i (k div 8)"
    and "rdly_dq_bitslip_rst_re i"
    and "rdly_dq_bitslip_re i"
  shows "dq_bitslip_value (step i p) ! k = 0"
  using assms by (simp add: step_dq_bitslip_value_nth dq_bitslip_next_def)

theorem bitslip_reset_priority_witness:
  "dq_bitslip_value a7_ddr3_rotated ! 3 = 2 \<and>
   dq_bitslip_value (step bitslip_both a7_ddr3_rotated) ! 3 = 0"
proof -
  have k: "3 < length (dq_bitslip_value a7_ddr3_rotated)"
    by (simp add: a7_ddr3_rotated_values)
  have s: "dly_sel_storage bitslip_both (3 div 8)" by (simp add: bitslip_both_def idle_def)
  have r: "rdly_dq_bitslip_rst_re bitslip_both" by (simp add: bitslip_both_def idle_def)
  have i: "rdly_dq_bitslip_re bitslip_both" by (simp add: bitslip_both_def idle_def)
  show ?thesis using bitslip_reset_priority [OF k s r i] by (simp add: a7_ddr3_rotated_values)
qed

lemma calibration_held:
  assumes k: "k < length (dq_bitslip_value p)" "k < length (idelay_tap p)"
    and quiet: "\<forall>u < t. \<not> dly_sel_storage (ins u) (k div 8) \<or>
                  \<not> (rdly_dq_rst_re (ins u) \<or> rdly_dq_inc_re (ins u) \<or>
                     rdly_dq_bitslip_rst_re (ins u) \<or> rdly_dq_bitslip_re (ins u))"
  shows "dq_bitslip_value (run ins t p) ! k = dq_bitslip_value p ! k \<and>
         idelay_tap (run ins t p) ! k = idelay_tap p ! k"
  using quiet
proof (induction t)
  case 0
  show ?case by simp
next
  case (Suc t)
  have l1: "k < length (dq_bitslip_value (run ins t p))" using k by (simp only: run_lengths)
  have l2: "k < length (idelay_tap (run ins t p))" using k by (simp only: run_lengths)
  have ih: "dq_bitslip_value (run ins t p) ! k = dq_bitslip_value p ! k \<and>
         idelay_tap (run ins t p) ! k = idelay_tap p ! k"
    using Suc by simp
  have q: "\<not> dly_sel_storage (ins t) (k div 8) \<or>
                  \<not> (rdly_dq_rst_re (ins t) \<or> rdly_dq_inc_re (ins t) \<or>
                     rdly_dq_bitslip_rst_re (ins t) \<or> rdly_dq_bitslip_re (ins t))"
    using Suc.prems by simp
  have "dq_bitslip_value (step (ins t) (run ins t p)) ! k = dq_bitslip_value (run ins t p) ! k"
    using q by (auto simp: step_dq_bitslip_value_nth [OF l1] dq_bitslip_next_def)
  moreover have "idelay_tap (step (ins t) (run ins t p)) ! k = idelay_tap (run ins t p) ! k"
    using q by (auto simp: step_idelay_tap_nth [OF l2] IDELAYE2_def)
  ultimately show ?case using ih by simp
qed

text \<open>
  Claim C7. In one clock cycle, whatever strobes are set: a data pin \<open>k\<close> whose lane-select
  bit is clear keeps its delay tap and its bitslip rotation, while a data pin \<open>j\<close> whose
  lane-select bit is set has its tap and its rotation reset or advanced by one as the strobes
  say. Nothing is queued: over any number of cycles in each of which the lane of pin \<open>k\<close>
  is masked off or no strobe is set, the tap and the rotation of pin \<open>k\<close> stay as they were,
  also once the lane is selected again.
\<close>

theorem lane_isolation:
  assumes "k < length (dq_bitslip_value p)" and "k < length (idelay_tap p)"
    and "j < length (dq_bitslip_value p)" and "j < length (idelay_tap p)"
  shows "(\<not> dly_sel_storage i (k div 8) \<longrightarrow>
            dq_bitslip_value (step i p) ! k = dq_bitslip_value p ! k \<and>
            idelay_tap (step i p) ! k = idelay_tap p ! k) \<and>
         (dly_sel_storage i (j div 8) \<longrightarrow>
            dq_bitslip_value (step i p) ! j =
              (if rdly_dq_bitslip_rst_re i then 0
               else if rdly_dq_bitslip_re i then dq_bitslip_value p ! j + 1
               else dq_bitslip_value p ! j) \<and>
            idelay_tap (step i p) ! j =
              (if rdly_dq_rst_re i then 0
               else if rdly_dq_inc_re i then idelay_tap p ! j + 1
               else idelay_tap p ! j)) \<and>
         ((\<forall>u < t. \<not> dly_sel_storage (ins u) (k div 8) \<or>
                  \<not> (rdly_dq_rst_re (ins u) \<or> rdly_dq_inc_re (ins u) \<or>
                     rdly_dq_bitslip_rst_re (ins u) \<or> rdly_dq_bitslip_re (ins u))) \<longrightarrow>
            dq_bitslip_value (run ins t p) ! k = dq_bitslip_value p ! k \<and>
            idelay_tap (run ins t p) ! k = idelay_tap p ! k)"
  using assms calibration_held [of k p t ins]
  by (simp add: step_dq_bitslip_value_nth step_idelay_tap_nth dq_bitslip_next_def IDELAYE2_def)

theorem lane_isolation_witness:
  "dq_bitslip_value (step inc_lane1 a7_ddr3_rotated) ! 3 = 2 \<and>
   dq_bitslip_value (step inc_lane1 a7_ddr3_rotated) ! 12 = 3 \<and>
   idelay_tap (step inc_lane1 a7_ddr3_rotated) ! 3 = idelay_tap a7_ddr3_rotated ! 3 \<and>
   idelay_tap (step inc_lane1 a7_ddr3_rotated) ! 12 = idelay_tap a7_ddr3_rotated ! 12 + 1 \<and>
   dq_bitslip_value (run masked_then_selected 4 a7_ddr3_rotated) ! 3 = 2"
proof -
  have k: "3 < length (dq_bitslip_value a7_ddr3_rotated)" "3 < length (idelay_tap a7_ddr3_rotated)"
    and j: "12 < length (dq_bitslip_value a7_ddr3_rotated)" "12 < length (idelay_tap a7_ddr3_rotated)"
    by (simp_all add: a7_ddr3_rotated_values)
  have masked: "\<not> dly_sel_storage inc_lane1 (3 div 8)" by (simp add: inc_lane1_def idle_def)
  have selected: "dly_sel_storage inc_lane1 (12 div 8)" by (simp add: inc_lane1_def idle_def)
  have quiet: "\<forall>u < 4. \<not> dly_sel_storage (masked_then_selected u) (3 div 8) \<or>
                  \<not> (rdly_dq_rst_re (masked_then_selected u) \<or> rdly_dq_inc_re (masked_then_selected u) \<or>
                     rdly_dq_bitslip_rst_re (masked_then_selected u) \<or>
                     rdly_dq_bitslip_re (masked_then_selected u))"
    by (simp add: masked_then_selected_def inc_lane1_def idle_def)
  note w = lane_isolation [OF k j, of inc_lane1 4 masked_then_selected]
  have a: "dq_bitslip_value (step inc_lane1 a7_ddr3_rotated) ! 3 = dq_bitslip_value a7_ddr3_rotated ! 3 \<and>
            idelay_tap (step inc_lane1 a7_ddr3_rotated) ! 3 = idelay_tap a7_ddr3_rotated ! 3"
    using w masked by blast
  have b: "dq_bitslip_value (step inc_lane1 a7_ddr3_rotated) ! 12 = dq_bitslip_value a7_ddr3_rotated ! 12 + 1 \<and>
            idelay_tap (step inc_lane1 a7_ddr3_rotated) ! 12 = idelay_tap a7_ddr3_rotated ! 12 + 1"
    using w selected by (simp add: inc_lane1_def idle_def)
  have c: "dq_bitslip_value (run masked_then_selected 4 a7_ddr3_rotated) ! 3 =
             dq_bitslip_value a7_ddr3_rotated ! 3"
    using w quiet by blast
  show ?thesis using a b c by (simp add: a7_ddr3_rotated_values)
qed

section \<open>Failing constructions\<close>











end
